(* ===== verification/Prelude.thy ===== *)
theory Prelude
  imports Main "HOL-Library.AList" "HOL-Library.Multiset"
begin

text \<open>
  Shared vocabulary of the development: the names of the model's base types, the
  collection of simplification rules the page model registers its operations in, and
  generic facts about lists (search with \<open>find\<close>, splitting a list at the unique
  element that carries a key, deleting by position) that the DOM and page theories use.
\<close>

type_synonym node_id = nat
type_synonym dom_string = string
type_synonym ms = nat

named_theorems page_simps "equations that evaluate the page operations"

subsection \<open>Deleting the element at a position\<close>

text \<open>
  The event loop removes a settled promise or a fired timer from its queue by position;
  positions past the end leave the list as it is.
\<close>

definition drop_nth :: "nat \<Rightarrow> 'a list \<Rightarrow> 'a list" where
  "drop_nth k xs = take k xs @ drop (Suc k) xs"

lemma set_drop_nth_subset: "set (drop_nth k xs) \<subseteq> set xs"
  by (auto simp: drop_nth_def dest: in_set_takeD in_set_dropD)

lemma length_drop_nth [simp]: "k < length xs \<Longrightarrow> length (drop_nth k xs) = length xs - 1"
  by (simp add: drop_nth_def)

lemma drop_nth_Cons_0 [simp]: "drop_nth 0 (x # xs) = xs"
  by (simp add: drop_nth_def)

lemma drop_nth_Cons_Suc [simp]: "drop_nth (Suc k) (x # xs) = x # drop_nth k xs"
  by (simp add: drop_nth_def)

lemma drop_nth_Nil [simp]: "drop_nth k [] = []"
  by (simp add: drop_nth_def)

subsection \<open>The largest of a list and a start value\<close>

lemma fold_max_ge_start: "a \<le> fold max xs (a::nat)"
proof (induction xs arbitrary: a)
  case Nil
  then show ?case by simp
next
  case (Cons x xs)
  show ?case using le_trans [OF max.cobounded2 Cons.IH [of "max x a"]] by simp
qed

lemma fold_max_ge_elem: "x \<in> set xs \<Longrightarrow> x \<le> fold max xs (a::nat)"
proof (induction xs arbitrary: a)
  case Nil
  then show ?case by simp
next
  case (Cons y xs)
  show ?case
  proof (cases "x = y")
    case True
    then show ?thesis using le_trans [OF max.cobounded1 fold_max_ge_start] by simp
  next
    case False
    with Cons show ?thesis by simp
  qed
qed

text \<open>A loop over a list of lists is the loop over their concatenation.\<close>

lemma fold_concat_nested: "fold f (concat xss) = fold (fold f) xss"
  by (induction xss) simp_all

subsection \<open>Search with find\<close>

lemma find_SomeD: "find P xs = Some x \<Longrightarrow> x \<in> set xs \<and> P x"
  by (auto simp: find_Some_iff)

lemma find_append:
  "find P (xs @ ys) = (case find P xs of None \<Rightarrow> find P ys | Some x \<Rightarrow> Some x)"
  by (induction xs) auto

lemma find_map_eq: "find P (map f xs) = map_option f (find (P \<circ> f) xs)"
  by (induction xs) auto

lemma find_None_append_middle:
  "find P ys = None \<Longrightarrow> find P (xs @ ys @ zs) = find P (xs @ zs)"
  by (simp add: find_append split: option.splits)

lemma map_option_find_eq_hd_filter:
  "map_option g (find P xs) = (case [g x. x \<leftarrow> xs, P x] of [] \<Rightarrow> None | y # _ \<Rightarrow> Some y)"
  by (induction xs) auto

lemma find_key_Some_iff:
  assumes "distinct (map f xs)"
  shows "find (\<lambda>x. f x = k) xs = Some y \<longleftrightarrow> y \<in> set xs \<and> f y = k"
  using assms by (induction xs) (auto simp: image_iff)

lemma find_key_None_iff:
  "find (\<lambda>x. f x = k) xs = None \<longleftrightarrow> k \<notin> f ` set xs"
  by (auto simp: find_None_iff)

text \<open>Under distinct keys, \<open>find\<close> by key depends only on the multiset of the list.\<close>

lemma find_key_mset_eq:
  assumes "distinct (map f xs)" and "mset xs = mset ys"
  shows "find (\<lambda>x. f x = k) xs = find (\<lambda>x. f x = k) ys"
proof -
  have sets: "set xs = set ys" using assms(2) by (metis set_mset_mset)
  have "distinct (map f ys)"
    using assms by (metis mset_map mset_eq_imp_distinct_iff)
  show ?thesis
  proof (cases "find (\<lambda>x. f x = k) xs")
    case None
    with sets show ?thesis by (metis find_key_None_iff)
  next
    case (Some y)
    with assms(1) sets have "y \<in> set ys" "f y = k" by (simp_all add: find_key_Some_iff)
    with Some \<open>distinct (map f ys)\<close> show ?thesis
      by (metis find_key_Some_iff)
  qed
qed

subsection \<open>Splitting a list at the element that holds a key\<close>

text \<open>
  When the keys of all elements are distinct (\<open>g\<close> maps each element to its keys), a
  key is held by exactly one element, and the list splits around it.
\<close>

lemma split_list_distinct_key:
  assumes "distinct (concat (map g xs))" and "k \<in> set (concat (map g xs))"
  shows "\<exists>ys c zs. xs = ys @ c # zs \<and> k \<in> set (g c)
           \<and> k \<notin> set (concat (map g ys)) \<and> k \<notin> set (concat (map g zs))"
  using assms
proof (induction xs)
  case Nil
  then show ?case by simp
next
  case (Cons x xs)
  show ?case
  proof (cases "k \<in> set (g x)")
    case True
    with Cons.prems(1) have "k \<notin> set (concat (map g xs))" by auto
    with True show ?thesis by (metis append_Nil concat.simps(1) list.map(1) empty_iff empty_set)
  next
    case False
    with Cons.prems obtain ys c zs where
      "xs = ys @ c # zs" "k \<in> set (g c)" "k \<notin> set (concat (map g ys))"
      "k \<notin> set (concat (map g zs))"
      using Cons.IH by auto
    with False show ?thesis by (intro exI [of _ "x # ys"]) auto
  qed
qed

subsection \<open>Distinct lists through multisets\<close>

lemma distinct_mset_plus_fresh:
  assumes "distinct xs" and "mset ys = mset xs + mset zs"
    and "distinct zs" and "set zs \<inter> set xs = {}"
  shows "distinct ys"
proof -
  have "distinct (xs @ zs)" using assms(1,3,4) by auto
  moreover have "mset ys = mset (xs @ zs)" using assms(2) by simp
  ultimately show ?thesis by (metis mset_eq_imp_distinct_iff)
qed

end
