(* ===== verification/Dom.thy ===== *)
theory Dom
  imports Prelude
begin

text \<open>
  The part of the browser's DOM that copycode.js uses, as a library the program calls:
  element and text nodes with identity, \<open>querySelector\<close> and \<open>querySelectorAll\<close>
  for the two selector shapes of the script (a class selector and a child combinator of
  two type selectors), \<open>textContent\<close> read and write, \<open>setAttribute\<close>,
  \<open>classList.add\<close>/\<open>remove\<close>, \<open>insertAdjacentText('afterend', _)\<close>, and the
  insertions and removals of the page's own scripts. A node is identified by its id; a
  node removed from the document is kept in a list of detached trees, as a JS reference
  keeps it alive. Updates are stated on the multiset of node headers (a node without its
  children), so that one lemma per operation says which headers it adds or replaces.
\<close>

section \<open>Nodes\<close>

text \<open>
  An element carries its id, its local name (the tag, lower case as HTML stores it), the
  tokens of its class list in order, its attributes in order, and its children.
\<close>

datatype node =
    Text node_id dom_string
  | Elem node_id dom_string "dom_string list" "(dom_string \<times> dom_string) list" "node list"

fun nid :: "node \<Rightarrow> node_id" where
  "nid (Text i _) = i"
| "nid (Elem i _ _ _ _) = i"

fun children :: "node \<Rightarrow> node list" where
  "children (Text _ _) = []"
| "children (Elem _ _ _ _ ch) = ch"

fun with_children :: "node \<Rightarrow> node list \<Rightarrow> node" where
  "with_children (Text i d) _ = Text i d"
| "with_children (Elem i tg cl at _) ch = Elem i tg cl at ch"

fun is_elem :: "node \<Rightarrow> bool" where
  "is_elem (Text _ _) = False"
| "is_elem (Elem _ _ _ _ _) = True"

fun tag_of :: "node \<Rightarrow> dom_string option" where
  "tag_of (Text _ _) = None"
| "tag_of (Elem _ tg _ _ _) = Some tg"

fun classes :: "node \<Rightarrow> dom_string list" where
  "classes (Text _ _) = []"
| "classes (Elem _ _ cl _ _) = cl"

fun attrs :: "node \<Rightarrow> (dom_string \<times> dom_string) list" where
  "attrs (Text _ _) = []"
| "attrs (Elem _ _ _ at _) = at"

text \<open>The header of a node: the node with its children cut off.\<close>

fun strip :: "node \<Rightarrow> node" where
  "strip (Text i d) = Text i d"
| "strip (Elem i tg cl at _) = Elem i tg cl at []"

text \<open>All nodes of a tree in document order (preorder), and their headers and ids.\<close>

fun nodes :: "node \<Rightarrow> node list" where
  "nodes (Text i d) = [Text i d]"
| "nodes (Elem i tg cl at ch) = Elem i tg cl at ch # concat (map nodes ch)"

definition shape :: "node \<Rightarrow> node list" where
  "shape n = map strip (nodes n)"

definition ids :: "node \<Rightarrow> node_id list" where
  "ids n = map nid (nodes n)"

text \<open>\<open>textContent\<close>: the data of the text node, or of all text descendants in order.\<close>

fun text_content :: "node \<Rightarrow> dom_string" where
  "text_content (Text _ d) = d"
| "text_content (Elem _ _ _ _ ch) = concat (map text_content ch)"

lemma nid_strip [simp]: "nid (strip n) = nid n"
  by (cases n) simp_all

lemma nid_with_children [simp]: "nid (with_children n ch) = nid n"
  by (cases n) simp_all

lemma strip_with_children [simp]: "strip (with_children n ch) = strip n"
  by (cases n) simp_all

lemma is_elem_with_children [simp]: "is_elem (with_children n ch) = is_elem n"
  by (cases n) simp_all

lemma children_with_children [simp]: "is_elem n \<Longrightarrow> children (with_children n ch) = ch"
  by (cases n) simp_all

lemma nodes_hd: "nodes n = n # concat (map nodes (children n))"
  by (cases n) simp_all

lemma ids_hd: "ids n = nid n # concat (map ids (children n))"
  by (cases n) (simp_all add: ids_def [abs_def] map_concat comp_def)

lemma shape_hd: "shape n = strip n # concat (map shape (children n))"
  by (cases n) (simp_all add: shape_def [abs_def] map_concat comp_def)

lemma ids_shape: "ids n = map nid (shape n)"
  by (simp add: ids_def shape_def comp_def)

lemma nid_in_ids [simp]: "nid n \<in> set (ids n)"
  by (cases n) (simp_all add: ids_def)

lemma self_in_nodes [simp]: "n \<in> set (nodes n)"
  by (cases n) simp_all

lemma nodes_child: "c \<in> set (children z) \<Longrightarrow> y \<in> set (nodes c) \<Longrightarrow> y \<in> set (nodes z)"
  by (cases z) auto

lemma nodes_trans: "y \<in> set (nodes x) \<Longrightarrow> x \<in> set (nodes z) \<Longrightarrow> y \<in> set (nodes z)"
proof (induction z)
  case (Text i d)
  then show ?case by simp
next
  case (Elem i tg cl at ch)
  show ?case
  proof (cases "x = Elem i tg cl at ch")
    case True
    with Elem.prems show ?thesis by simp
  next
    case False
    with Elem.prems(2) obtain c where "c \<in> set ch" "x \<in> set (nodes c)" by auto
    with Elem.IH Elem.prems(1) show ?thesis by auto
  qed
qed

lemma shape_Text [simp]: "shape (Text i d) = [Text i d]"
  by (simp add: shape_def)

lemma ids_Text [simp]: "ids (Text i d) = [i]"
  by (simp add: ids_def)

section \<open>Selectors\<close>

text \<open>
  The two selector shapes of the script: \<open>.c\<close> (\<open>Class c\<close>) and \<open>p > t\<close>
  (\<open>Child p t\<close>: an element with local name \<open>t\<close> whose parent element has local
  name \<open>p\<close>). Matching takes the local name of the parent element, \<open>None\<close> where the
  parent is the document or there is none. Text nodes match no selector.
\<close>

datatype selector = Class dom_string | Child dom_string dom_string

fun sel_matches :: "selector \<Rightarrow> dom_string option \<Rightarrow> node \<Rightarrow> bool" where
  "sel_matches (Class c) p (Elem _ _ cl _ _) = (c \<in> set cl)"
| "sel_matches (Child pt t) p (Elem _ tg _ _ _) = (p = Some pt \<and> tg = t)"
| "sel_matches _ _ (Text _ _) = False"

text \<open>
  \<open>querySelector\<close> on an element: the first descendant in document order that matches,
  as a browser finds it, stopping at the first match.
\<close>

fun qs_list :: "selector \<Rightarrow> dom_string option \<Rightarrow> node list \<Rightarrow> node_id option" where
  "qs_list s p [] = None"
| "qs_list s p (Text i d # cs) = qs_list s p cs"
| "qs_list s p (Elem i tg cl at ch # cs) =
     (if sel_matches s p (Elem i tg cl at ch) then Some i
      else (case qs_list s (Some tg) ch of Some r \<Rightarrow> Some r | None \<Rightarrow> qs_list s p cs))"

definition query_selector :: "selector \<Rightarrow> node \<Rightarrow> node_id option" where
  "query_selector s n = qs_list s (tag_of n) (children n)"

text \<open>
  The reference: the descendants of a list of siblings in document order, each with the
  local name of its parent; \<open>querySelectorAll\<close> filters it.
\<close>

fun desc :: "dom_string option \<Rightarrow> node list \<Rightarrow> (dom_string option \<times> node) list" where
  "desc p [] = []"
| "desc p (Text i d # cs) = (p, Text i d) # desc p cs"
| "desc p (Elem i tg cl at ch # cs) =
     (p, Elem i tg cl at ch) # desc (Some tg) ch @ desc p cs"

definition query_selector_all :: "selector \<Rightarrow> dom_string option \<Rightarrow> node list \<Rightarrow> node_id list" where
  "query_selector_all s p ns = [nid n. (q, n) \<leftarrow> desc p ns, sel_matches s q n]"

text \<open>The early-exit search returns the first element of the full match list.\<close>

lemma qs_list_first_match:
  "qs_list s p cs = map_option (nid \<circ> snd) (find (\<lambda>(q, n). sel_matches s q n) (desc p cs))"
  by (induction s p cs rule: qs_list.induct) (auto simp: find_append split: option.splits)

lemma qs_list_eq_hd_all:
  "qs_list s p cs = (case query_selector_all s p cs of [] \<Rightarrow> None | x # _ \<Rightarrow> Some x)"
  unfolding qs_list_first_match query_selector_all_def
  by (simp add: map_option_find_eq_hd_filter split_def comp_def)

lemma desc_nodes: "map snd (desc p cs) = concat (map nodes cs)"
  by (induction p cs rule: desc.induct) simp_all

lemma qs_list_in_nodes: "qs_list s p cs = Some i \<Longrightarrow> \<exists>n \<in> set (concat (map nodes cs)). nid n = i \<and> is_elem n"
  by (induction s p cs rule: qs_list.induct) (auto split: if_splits option.splits)

section \<open>The DOM state\<close>

text \<open>
  The document's tree (rooted at the document element) and the trees that were removed
  from it and are still referenced; \<open>next_id\<close> is the id the next created node gets.
\<close>

record dom =
  doc :: node
  detached :: "node list"
  next_id :: node_id

definition forest :: "dom \<Rightarrow> node list" where
  "forest d = doc d # detached d"

definition dom_nodes :: "dom \<Rightarrow> node list" where
  "dom_nodes d = concat (map nodes (forest d))"

definition dom_shape :: "dom \<Rightarrow> node list" where
  "dom_shape d = map strip (dom_nodes d)"

definition dom_ids :: "dom \<Rightarrow> node_id list" where
  "dom_ids d = map nid (dom_nodes d)"

definition lookup :: "dom \<Rightarrow> node_id \<Rightarrow> node option" where
  "lookup d i = find (\<lambda>n. nid n = i) (dom_nodes d)"

definition header :: "dom \<Rightarrow> node_id \<Rightarrow> node option" where
  "header d i = find (\<lambda>n. nid n = i) (dom_shape d)"

definition in_doc :: "dom \<Rightarrow> node_id \<Rightarrow> bool" where
  "in_doc d i \<longleftrightarrow> i \<in> set (ids (doc d))"

definition parent_of :: "dom \<Rightarrow> node_id \<Rightarrow> node_id option" where
  "parent_of d i = map_option nid (find (\<lambda>n. i \<in> set (map nid (children n))) (dom_nodes d))"

text \<open>
  Well-formedness: node ids are distinct across the document and the detached trees,
  all below the next fresh id, and the document's root is an element.
\<close>

definition wf_dom :: "dom \<Rightarrow> bool" where
  "wf_dom d \<longleftrightarrow> distinct (dom_ids d) \<and> list_all (\<lambda>i. i < next_id d) (dom_ids d) \<and> is_elem (doc d)"

lemma dom_nodes_closed:
  "x \<in> set (dom_nodes d) \<Longrightarrow> y \<in> set (nodes x) \<Longrightarrow> y \<in> set (dom_nodes d)"
  by (auto simp: dom_nodes_def intro: nodes_trans)

lemma dom_ids_shape: "dom_ids d = map nid (dom_shape d)"
  by (simp add: dom_ids_def dom_shape_def comp_def)

lemma header_lookup: "header d i = map_option strip (lookup d i)"
  by (simp add: header_def lookup_def dom_shape_def find_map_eq comp_def)

lemma lookup_Some:
  assumes "distinct (dom_ids d)"
  shows "lookup d i = Some n \<longleftrightarrow> n \<in> set (dom_nodes d) \<and> nid n = i"
  using assms by (simp add: lookup_def dom_ids_def find_key_Some_iff)

lemma lookup_None: "lookup d i = None \<longleftrightarrow> i \<notin> set (dom_ids d)"
  by (simp add: lookup_def dom_ids_def find_key_None_iff)

section \<open>Updating one node\<close>

text \<open>\<open>map_at i f\<close> replaces the node with id \<open>i\<close> by its image under \<open>f\<close>.\<close>

fun map_at :: "node_id \<Rightarrow> (node \<Rightarrow> node) \<Rightarrow> node \<Rightarrow> node" where
  "map_at i f (Text j d) = (if i = j then f (Text j d) else Text j d)"
| "map_at i f (Elem j tg cl at ch) =
     (if i = j then f (Elem j tg cl at ch) else Elem j tg cl at (map (map_at i f) ch))"

definition dom_map :: "node_id \<Rightarrow> (node \<Rightarrow> node) \<Rightarrow> dom \<Rightarrow> dom" where
  "dom_map i f d = d\<lparr>doc := map_at i f (doc d), detached := map (map_at i f) (detached d)\<rparr>"

lemma map_at_other: "i \<notin> set (ids n) \<Longrightarrow> map_at i f n = n"
proof (induction n)
  case (Text j d)
  then show ?case by simp
next
  case (Elem j tg cl at ch)
  then have "\<forall>c \<in> set ch. i \<notin> set (ids c)" by (auto simp: ids_def)
  moreover have "i \<noteq> j" using Elem.prems nid_in_ids [of "Elem j tg cl at ch"] by auto
  ultimately show ?case using Elem.IH by (simp add: map_idI)
qed

lemma map_at_list_other:
  "i \<notin> set (concat (map ids cs)) \<Longrightarrow> map (map_at i f) cs = cs"
  by (auto intro: map_idI map_at_other)

text \<open>
  The zipper lemma: the nodes of the tree before and after \<open>map_at\<close> split into the
  same three parts around the updated node; the nodes before it may differ only in their
  children (they are its ancestors), the nodes after it are untouched.
\<close>

lemma map_at_split:
  assumes "distinct (ids n)" and "i \<in> set (ids n)"
  shows "\<exists>A A' B m. nodes n = A @ nodes m @ B \<and> nodes (map_at i f n) = A' @ nodes (f m) @ B
           \<and> map strip A' = map strip A \<and> nid m = i"
  using assms
proof (induction n)
  case (Text j d)
  then show ?case
    by (intro exI [of _ "[]"] exI [of _ "[]"] exI [of _ "[]"] exI [of _ "Text j d"])
       (auto simp: ids_def)
next
  case (Elem j tg cl at ch)
  show ?case
  proof (cases "i = j")
    case True
    then show ?thesis
      by (intro exI [of _ "[]"] exI [of _ "[]"] exI [of _ "[]"] exI [of _ "Elem j tg cl at ch"])
         simp
  next
    case False
    have dch: "distinct (concat (map ids ch))" and jch: "j \<notin> set (concat (map ids ch))"
      using Elem.prems(1) by (simp_all add: ids_hd [of "Elem j tg cl at ch"])
    have ich: "i \<in> set (concat (map ids ch))"
      using Elem.prems(2) False by (simp add: ids_hd [of "Elem j tg cl at ch"])
    obtain ys c zs where ch: "ch = ys @ c # zs" and ic: "i \<in> set (ids c)"
      and iys: "i \<notin> set (concat (map ids ys))" and izs: "i \<notin> set (concat (map ids zs))"
      using split_list_distinct_key [OF dch ich] by blast
    have "distinct (ids c)" using dch ch by simp
    then obtain A0 A0' B0 m where c: "nodes c = A0 @ nodes m @ B0"
      and c': "nodes (map_at i f c) = A0' @ nodes (f m) @ B0"
      and s: "map strip A0' = map strip A0" and m: "nid m = i"
      using Elem.IH [of c] ch ic by auto
    have ys: "map (map_at i f) ys = ys" and zs: "map (map_at i f) zs = zs"
      using iys izs by (simp_all add: map_at_list_other)
    let ?A = "Elem j tg cl at ch # concat (map nodes ys) @ A0"
    let ?A' = "Elem j tg cl at (ys @ map_at i f c # zs) # concat (map nodes ys) @ A0'"
    have "nodes (Elem j tg cl at ch) = ?A @ nodes m @ (B0 @ concat (map nodes zs))"
      using ch c by simp
    moreover have "nodes (map_at i f (Elem j tg cl at ch)) = ?A' @ nodes (f m) @ (B0 @ concat (map nodes zs))"
      using ch c' ys zs False by simp
    moreover have "map strip ?A' = map strip ?A" using s by simp
    ultimately show ?thesis using m by blast
  qed
qed

lemma forest_dom_map: "forest (dom_map i f d) = map (map_at i f) (forest d)"
  by (simp add: forest_def dom_map_def)

lemma dom_ids_concat: "dom_ids d = concat (map ids (forest d))"
  by (simp add: dom_ids_def dom_nodes_def ids_def [abs_def] map_concat comp_def)

lemma dom_shape_concat: "dom_shape d = concat (map shape (forest d))"
  by (simp add: dom_shape_def dom_nodes_def shape_def [abs_def] map_concat comp_def)

lemma dom_map_absent: "lookup d i = None \<Longrightarrow> dom_map i f d = d"
  by (simp add: dom_map_def lookup_None dom_ids_concat forest_def map_at_other map_at_list_other)

lemma dom_map_simps [simp]:
  "next_id (dom_map i f d) = next_id d"
  by (simp_all add: dom_map_def)

text \<open>The zipper lemma lifted to the document and its detached trees.\<close>

lemma dom_map_split:
  assumes "distinct (dom_ids d)" and "lookup d i = Some m"
  shows "\<exists>A A' B. dom_nodes d = A @ nodes m @ B
           \<and> dom_nodes (dom_map i f d) = A' @ nodes (f m) @ B \<and> map strip A' = map strip A"
proof -
  have dist: "distinct (concat (map ids (forest d)))" using assms(1) by (simp add: dom_ids_concat)
  have m: "m \<in> set (dom_nodes d)" "nid m = i" using assms by (simp_all add: lookup_Some)
  then have "i \<in> set (dom_ids d)" by (auto simp: dom_ids_def)
  then have "i \<in> set (concat (map ids (forest d)))" by (simp only: dom_ids_concat)
  then obtain ys t zs where fs: "forest d = ys @ t # zs" and it: "i \<in> set (ids t)"
    and iys: "i \<notin> set (concat (map ids ys))" and izs: "i \<notin> set (concat (map ids zs))"
    using split_list_distinct_key [OF dist] by blast
  have "distinct (ids t)" using dist fs by simp
  then obtain A0 A0' B0 m' where t: "nodes t = A0 @ nodes m' @ B0"
    and t': "nodes (map_at i f t) = A0' @ nodes (f m') @ B0"
    and s: "map strip A0' = map strip A0" and m': "nid m' = i"
    using map_at_split [OF _ it] by blast
  have "m' \<in> set (dom_nodes d)" using fs t by (simp add: dom_nodes_def)
  with m' assms(1) have "lookup d i = Some m'" by (simp add: lookup_Some)
  with assms(2) have "m' = m" by simp
  have ys: "map (map_at i f) ys = ys" and zs: "map (map_at i f) zs = zs"
    using iys izs by (simp_all add: map_at_list_other)
  let ?A = "concat (map nodes ys) @ A0" and ?A' = "concat (map nodes ys) @ A0'"
  have "dom_nodes d = ?A @ nodes m @ (B0 @ concat (map nodes zs))"
    using fs t \<open>m' = m\<close> by (simp add: dom_nodes_def)
  moreover have "dom_nodes (dom_map i f d) = ?A' @ nodes (f m) @ (B0 @ concat (map nodes zs))"
    using fs t' ys zs \<open>m' = m\<close> by (simp add: dom_nodes_def forest_dom_map)
  moreover have "map strip ?A' = map strip ?A" using s by simp
  ultimately show ?thesis by blast
qed

lemma dom_map_shape:
  assumes "distinct (dom_ids d)" and "lookup d i = Some m"
  shows "mset (dom_shape (dom_map i f d)) + mset (shape m) = mset (dom_shape d) + mset (shape (f m))"
proof -
  obtain A A' B where "dom_nodes d = A @ nodes m @ B"
    "dom_nodes (dom_map i f d) = A' @ nodes (f m) @ B" "map strip A' = map strip A"
    using dom_map_split [OF assms] by blast
  then show ?thesis by (simp add: dom_shape_def shape_def)
qed

text \<open>An update that keeps the children changes only the header of its node.\<close>

lemma dom_map_header_update:
  assumes "distinct (dom_ids d)" and "lookup d i = Some m"
    and "children (f m) = children m" and "nid (f m) = i"
  shows "header (dom_map i f d) x = (if x = i then Some (strip (f m)) else header d x)"
proof -
  obtain A A' B where nd: "dom_nodes d = A @ nodes m @ B"
    and nd': "dom_nodes (dom_map i f d) = A' @ nodes (f m) @ B" and s: "map strip A' = map strip A"
    using dom_map_split [OF assms(1,2)] by blast
  have im: "nid m = i" using assms(1,2) by (simp add: lookup_Some)
  let ?R = "concat (map nodes (children m))"
  have sh: "dom_shape d = map strip A @ strip m # map strip ?R @ map strip B"
    using nd nodes_hd [of m] by (simp add: dom_shape_def)
  have sh': "dom_shape (dom_map i f d) = map strip A @ strip (f m) # map strip ?R @ map strip B"
    using nd' s nodes_hd [of "f m"] assms(3) by (simp add: dom_shape_def)
  have "set (map nid A) \<inter> set (map nid (nodes m) @ map nid B) = {}"
    using assms(1) nd by (simp only: dom_ids_def map_append distinct_append)
  moreover have "i \<in> set (map nid (nodes m))"
    using im self_in_nodes [of m] by (metis image_eqI list.set_map)
  ultimately have "i \<notin> set (map nid A)" by auto
  then have hA: "find (\<lambda>n. nid n = i) (map strip A) = None"
    by (simp add: find_key_None_iff image_image)
  show ?thesis
  proof (cases "x = i")
    case True
    with hA im assms(4) show ?thesis by (simp add: header_def sh' find_append)
  next
    case False
    then have "i \<noteq> x" by simp
    with im assms(4) show ?thesis
      by (simp add: header_def sh sh' find_append split: option.split)
  qed
qed

lemma dom_map_ids:
  assumes "distinct (dom_ids d)" and "lookup d i = Some m"
  shows "mset (dom_ids (dom_map i f d)) + mset (ids m) = mset (dom_ids d) + mset (ids (f m))"
proof -
  have "image_mset nid (mset (dom_shape (dom_map i f d)) + mset (shape m))
      = image_mset nid (mset (dom_shape d) + mset (shape (f m)))"
    using dom_map_shape [OF assms] by simp
  then show ?thesis by (simp add: dom_ids_shape ids_shape)
qed

lemma dom_map_lookup_self:
  assumes "distinct (dom_ids d)" and "lookup d i = Some m" and "nid (f m) = i"
  shows "lookup (dom_map i f d) i = Some (f m)"
proof -
  obtain A A' B where nd: "dom_nodes d = A @ nodes m @ B"
    and nd': "dom_nodes (dom_map i f d) = A' @ nodes (f m) @ B" and s: "map strip A' = map strip A"
    using dom_map_split [OF assms(1,2)] by blast
  have im: "nid m = i" using assms(1,2) by (simp add: lookup_Some)
  have "set (map nid A) \<inter> set (map nid (nodes m) @ map nid B) = {}"
    using assms(1) nd by (simp only: dom_ids_def map_append distinct_append)
  moreover have "i \<in> set (map nid (nodes m))"
    using im self_in_nodes [of m] by (metis image_eqI list.set_map)
  moreover have "map nid A' = map nid A"
    using s by (metis map_map nid_strip comp_def map_eq_conv)
  ultimately have "i \<notin> set (map nid A')" by auto
  then have "find (\<lambda>n. nid n = i) A' = None" by (simp add: find_key_None_iff)
  with assms(3) show ?thesis
    by (simp add: lookup_def nd' find_append nodes_hd [of "f m"])
qed

lemma lookup_doc_root: "lookup d (nid (doc d)) = Some (doc d)"
  by (simp add: lookup_def dom_nodes_def forest_def nodes_hd [of "doc d"])

lemma is_elem_map_at: "is_elem (map_at i f n) = (if i = nid n then is_elem (f n) else is_elem n)"
  by (cases n) simp_all

lemma ids_keep_children:
  "nid (f m) = nid m \<Longrightarrow> children (f m) = children m \<Longrightarrow> ids (f m) = ids m"
  by (simp add: ids_hd [of "f m"] ids_hd [of m])

text \<open>An update that keeps the ids and the kind of its node keeps the DOM well-formed.\<close>

lemma wf_dom_map:
  assumes "wf_dom d" and "lookup d i = Some m"
    and "ids (f m) = ids m" and "is_elem (f m) = is_elem m"
  shows "wf_dom (dom_map i f d)"
proof -
  have dist: "distinct (dom_ids d)" using assms(1) by (simp add: wf_dom_def)
  have ms: "mset (dom_ids (dom_map i f d)) = mset (dom_ids d)"
    using dom_map_ids [OF dist assms(2), of f] assms(3) by simp
  then have "set (dom_ids (dom_map i f d)) = set (dom_ids d)" by (metis set_mset_mset)
  moreover have "distinct (dom_ids (dom_map i f d))" using ms dist by (metis mset_eq_imp_distinct_iff)
  moreover have "is_elem (doc (dom_map i f d))"
  proof (cases "i = nid (doc d)")
    case True
    then have "m = doc d" using assms(2) lookup_doc_root [of d] by simp
    with True assms(1,4) show ?thesis by (simp add: dom_map_def is_elem_map_at wf_dom_def)
  next
    case False
    with assms(1) show ?thesis by (simp add: dom_map_def is_elem_map_at wf_dom_def)
  qed
  ultimately show ?thesis using assms(1) by (simp add: wf_dom_def list_all_iff)
qed

text \<open>
  An operation that only adds the headers \<open>N\<close> keeps every other header: what the
  document held before is still there, unchanged, wherever the node now sits.
\<close>

lemma header_grow:
  assumes "distinct (dom_ids d')" and "mset (dom_shape d') = mset (dom_shape d @ N)"
    and "x \<notin> nid ` set N"
  shows "header d' x = header d x"
proof -
  have "distinct (map nid (dom_shape d'))" using assms(1) by (simp add: dom_ids_shape)
  then have "header d' x = find (\<lambda>n. nid n = x) (dom_shape d @ N)"
    unfolding header_def using assms(2) by (rule find_key_mset_eq)
  also have "\<dots> = header d x"
  proof -
    have "find (\<lambda>n. nid n = x) N = None" using assms(3) by (simp add: find_key_None_iff)
    then show ?thesis by (simp add: header_def find_append split: option.split)
  qed
  finally show ?thesis .
qed

section \<open>DOM operations\<close>

subsection \<open>Header updates: attributes, class list, text data\<close>

text \<open>
  \<open>setAttribute\<close> replaces the value of an existing attribute in place or appends the
  attribute (\<open>AList.update\<close>); \<open>classList.add\<close> appends a token that is absent;
  \<open>classList.remove\<close> removes the token.
\<close>

fun set_attr_node :: "dom_string \<Rightarrow> dom_string \<Rightarrow> node \<Rightarrow> node" where
  "set_attr_node k v (Elem i tg cl at ch) = Elem i tg cl (AList.update k v at) ch"
| "set_attr_node k v (Text i d) = Text i d"

fun add_class_node :: "dom_string \<Rightarrow> node \<Rightarrow> node" where
  "add_class_node c (Elem i tg cl at ch) = Elem i tg (if c \<in> set cl then cl else cl @ [c]) at ch"
| "add_class_node c (Text i d) = Text i d"

fun remove_class_node :: "dom_string \<Rightarrow> node \<Rightarrow> node" where
  "remove_class_node c (Elem i tg cl at ch) = Elem i tg (removeAll c cl) at ch"
| "remove_class_node c (Text i d) = Text i d"

fun set_data :: "dom_string \<Rightarrow> node \<Rightarrow> node" where
  "set_data s (Text i _) = Text i s"
| "set_data s (Elem i tg cl at ch) = Elem i tg cl at ch"

definition set_attribute :: "dom \<Rightarrow> node_id \<Rightarrow> dom_string \<Rightarrow> dom_string \<Rightarrow> dom" where
  "set_attribute d i k v = dom_map i (set_attr_node k v) d"

definition class_add :: "dom \<Rightarrow> node_id \<Rightarrow> dom_string \<Rightarrow> dom" where
  "class_add d i c = dom_map i (add_class_node c) d"

definition class_remove :: "dom \<Rightarrow> node_id \<Rightarrow> dom_string \<Rightarrow> dom" where
  "class_remove d i c = dom_map i (remove_class_node c) d"

lemma header_fun_simps [simp]:
  "nid (set_attr_node k v n) = nid n" "children (set_attr_node k v n) = children n"
  "is_elem (set_attr_node k v n) = is_elem n"
  "nid (add_class_node c n) = nid n" "children (add_class_node c n) = children n"
  "is_elem (add_class_node c n) = is_elem n"
  "nid (remove_class_node c n) = nid n" "children (remove_class_node c n) = children n"
  "is_elem (remove_class_node c n) = is_elem n"
  "nid (set_data s n) = nid n" "children (set_data s n) = children n"
  "is_elem (set_data s n) = is_elem n"
  by (cases n; simp)+

subsection \<open>Children updates: textContent, insertAdjacentText, append, remove\<close>

text \<open>
  Setting \<open>textContent\<close> of an element replaces all its children by one new text node
  holding the string, or by nothing for the empty string; the old children are removed
  from the tree but live on as detached trees. On a text node it sets the data.
\<close>

definition set_text_content :: "dom \<Rightarrow> node_id \<Rightarrow> dom_string \<Rightarrow> dom" where
  "set_text_content d i s =
     (case lookup d i of
        None \<Rightarrow> d
      | Some (Text _ _) \<Rightarrow> dom_map i (set_data s) d
      | Some (Elem _ _ _ _ ch) \<Rightarrow>
          (let new = (if s = [] then [] else [Text (next_id d) s]);
               d' = dom_map i (\<lambda>m. with_children m new) d
           in d'\<lparr>detached := detached d' @ ch, next_id := next_id d + length new\<rparr>))"

text \<open>Insert \<open>x\<close> right after the sibling with id \<open>i\<close>.\<close>

fun ins_after :: "node_id \<Rightarrow> node \<Rightarrow> node list \<Rightarrow> node list" where
  "ins_after i x [] = []"
| "ins_after i x (c # cs) = (if nid c = i then c # x # cs else c # ins_after i x cs)"

text \<open>
  \<open>insertAdjacentText('afterend', s)\<close>: a new text node becomes the next sibling of the
  element; an element without a parent is left alone.
\<close>

definition insert_adjacent_text_afterend :: "dom \<Rightarrow> node_id \<Rightarrow> dom_string \<Rightarrow> dom" where
  "insert_adjacent_text_afterend d i s =
     (case parent_of d i of
        None \<Rightarrow> d
      | Some p \<Rightarrow>
          (dom_map p (\<lambda>m. with_children m (ins_after i (Text (next_id d) s) (children m))) d)
            \<lparr>next_id := Suc (next_id d)\<rparr>)"

text \<open>\<open>appendChild\<close> and \<open>removeChild\<close> as the page's other scripts use them.\<close>

definition append_child :: "dom \<Rightarrow> node_id \<Rightarrow> node \<Rightarrow> dom" where
  "append_child d p x = dom_map p (\<lambda>m. with_children m (children m @ [x])) d"

definition remove_node :: "dom \<Rightarrow> node_id \<Rightarrow> dom" where
  "remove_node d i =
     (case (parent_of d i, lookup d i) of
        (Some p, Some n) \<Rightarrow>
          (let d' = dom_map p (\<lambda>m. with_children m (remove1 n (children m))) d
           in d'\<lparr>detached := detached d' @ [n]\<rparr>)
      | _ \<Rightarrow> d)"

lemma mset_shape_ins_after:
  "i \<in> nid ` set cs \<Longrightarrow>
   mset (concat (map shape (ins_after i x cs))) = mset (concat (map shape cs)) + mset (shape x)"
  by (induction cs) auto

lemma ins_after_split:
  "i \<notin> nid ` set ys \<Longrightarrow> nid c = i \<Longrightarrow> ins_after i x (ys @ c # zs) = ys @ c # x # zs"
  by (induction ys) auto

lemma dom_shape_detach:
  "dom_shape (d\<lparr>detached := detached d @ xs\<rparr>) = dom_shape d @ concat (map shape xs)"
  by (simp add: dom_shape_concat forest_def)

lemma dom_shape_next_id [simp]: "dom_shape (d\<lparr>next_id := k\<rparr>) = dom_shape d"
  by (simp add: dom_shape_concat forest_def)

lemma dom_ids_next_id [simp]: "dom_ids (d\<lparr>next_id := k\<rparr>) = dom_ids d"
  by (simp add: dom_ids_concat forest_def)

lemma lookup_next_id [simp]: "lookup (d\<lparr>next_id := k\<rparr>) = lookup d"
  by (simp add: lookup_def dom_nodes_def forest_def fun_eq_iff)

lemma parent_of_Some:
  assumes "distinct (dom_ids d)" and "parent_of d i = Some p"
  shows "\<exists>pn. lookup d p = Some pn \<and> i \<in> nid ` set (children pn) \<and> is_elem pn"
proof -
  obtain pn where f: "find (\<lambda>n. i \<in> set (map nid (children n))) (dom_nodes d) = Some pn"
    and p: "p = nid pn"
    using assms(2) by (auto simp: parent_of_def)
  then have pn: "pn \<in> set (dom_nodes d)" and ich: "i \<in> nid ` set (children pn)"
    by (auto simp: find_Some_iff)
  from ich have "is_elem pn" by (cases pn) auto
  with pn ich show ?thesis using assms(1) p by (auto simp: lookup_Some)
qed

subsection \<open>Effects of the operations\<close>

lemma wf_dom_distinct: "wf_dom d \<Longrightarrow> distinct (dom_ids d)"
  by (simp add: wf_dom_def)

lemma header_only_wf:
  assumes "wf_dom d" and "\<And>m. nid (f m) = nid m \<and> children (f m) = children m \<and> is_elem (f m) = is_elem m"
  shows "wf_dom (dom_map i f d)"
proof (cases "lookup d i")
  case None
  with assms(1) show ?thesis by (simp add: dom_map_absent)
next
  case (Some m)
  with assms show ?thesis by (intro wf_dom_map) (simp_all add: ids_keep_children)
qed

lemma header_only_header:
  assumes "wf_dom d" and "lookup d i = Some m"
    and "nid (f m) = nid m" and "children (f m) = children m"
  shows "header (dom_map i f d) x = (if x = i then Some (strip (f m)) else header d x)"
proof -
  have "nid m = i" using assms(1,2) by (simp add: lookup_Some wf_dom_def)
  with assms show ?thesis by (intro dom_map_header_update) (simp_all add: wf_dom_def)
qed

lemma wf_set_attribute: "wf_dom d \<Longrightarrow> wf_dom (set_attribute d i k v)"
  by (simp add: set_attribute_def header_only_wf)

lemma wf_class_add: "wf_dom d \<Longrightarrow> wf_dom (class_add d i c)"
  by (simp add: class_add_def header_only_wf)

lemma wf_class_remove: "wf_dom d \<Longrightarrow> wf_dom (class_remove d i c)"
  by (simp add: class_remove_def header_only_wf)

lemmas header_op_defs = set_attribute_def class_add_def class_remove_def

text \<open>Setting \<open>textContent\<close> of an element adds at most the one new text node.\<close>

lemma set_text_content_elem:
  assumes "distinct (dom_ids d)" and "lookup d i = Some m" and "is_elem m"
  shows "mset (dom_shape (set_text_content d i s))
           = mset (dom_shape d @ (if s = [] then [] else [Text (next_id d) s]))"
    and "next_id (set_text_content d i s) = next_id d + (if s = [] then 0 else 1)"
    and "lookup (set_text_content d i s) i
           = Some (with_children m (if s = [] then [] else [Text (next_id d) s]))"
    and "doc (set_text_content d i s) = map_at i (\<lambda>m. with_children m (if s = [] then [] else [Text (next_id d) s])) (doc d)"
proof -
  obtain j tg cl at ch where m: "m = Elem j tg cl at ch" using assms(3) by (cases m) auto
  let ?new = "if s = [] then [] else [Text (next_id d) s]"
  let ?f = "\<lambda>m. with_children m ?new"
  let ?d1 = "dom_map i ?f d"
  have st: "set_text_content d i s = ?d1\<lparr>detached := detached ?d1 @ ch, next_id := next_id d + length ?new\<rparr>"
    using assms(2) m by (simp add: set_text_content_def Let_def)
  have "mset (dom_shape ?d1) + mset (shape m) = mset (dom_shape d) + mset (shape (?f m))"
    by (rule dom_map_shape [OF assms(1,2)])
  then have h1: "mset (dom_shape ?d1) + mset (concat (map shape ch)) = mset (dom_shape d) + mset (concat (map shape ?new))"
    using m by (simp add: shape_hd [of "Elem j tg cl at ch"] shape_hd [of "Elem j tg cl at ?new"])
  have h2: "dom_shape (set_text_content d i s) = dom_shape ?d1 @ concat (map shape ch)"
    using st by (simp add: dom_shape_concat forest_def)
  have h3: "concat (map shape ?new) = ?new" by simp
  show "mset (dom_shape (set_text_content d i s)) = mset (dom_shape d @ ?new)"
    by (simp only: h2 mset_append h1 h3)
  show "next_id (set_text_content d i s) = next_id d + (if s = [] then 0 else 1)"
    using st by simp
  have "nid (?f m) = i" using assms(1,2) by (simp add: lookup_Some)
  then have "lookup ?d1 i = Some (?f m)" by (rule dom_map_lookup_self [OF assms(1,2)])
  moreover have "dom_nodes (set_text_content d i s) = dom_nodes ?d1 @ concat (map nodes ch)"
    using st by (simp add: dom_nodes_def forest_def)
  ultimately show "lookup (set_text_content d i s) i = Some (with_children m ?new)"
    by (simp add: lookup_def find_append)
  show "doc (set_text_content d i s) = map_at i ?f (doc d)"
    using st by (simp add: dom_map_def)
qed

lemma wf_grow:
  assumes "wf_dom d" and "mset (dom_shape d') = mset (dom_shape d @ N)"
    and "distinct (map nid N)" and "list_all (\<lambda>x. next_id d \<le> nid x \<and> nid x < next_id d') N"
    and "next_id d \<le> next_id d'" and "is_elem (doc d')"
  shows "wf_dom d'"
proof -
  have "mset (map nid (dom_shape d')) = mset (map nid (dom_shape d @ N))"
    by (simp only: mset_map assms(2))
  then have ms: "mset (dom_ids d') = mset (dom_ids d) + mset (map nid N)"
    by (simp add: dom_ids_shape)
  have old: "\<forall>x \<in> set (dom_ids d). x < next_id d" using assms(1) by (simp add: wf_dom_def list_all_iff)
  have new: "\<forall>x \<in> set (map nid N). next_id d \<le> x \<and> x < next_id d'"
    using assms(4) by (simp add: list_all_iff)
  have disj: "set (map nid N) \<inter> set (dom_ids d) = {}"
    using old new by (meson disjoint_iff not_le)
  have d0: "distinct (dom_ids d)" using assms(1) by (simp add: wf_dom_def)
  have "distinct (dom_ids d')"
    by (rule distinct_mset_plus_fresh [OF d0 ms assms(3) disj])
  moreover have "set (dom_ids d') = set (dom_ids d) \<union> set (map nid N)"
  proof -
    have "set_mset (mset (dom_ids d')) = set_mset (mset (dom_ids d) + mset (map nid N))"
      using ms by simp
    then show ?thesis by simp
  qed
  moreover have "\<forall>x \<in> set (dom_ids d) \<union> set (map nid N). x < next_id d'"
    using old new assms(5) by fastforce
  ultimately show ?thesis
    using assms(6) by (simp add: wf_dom_def list_all_iff)
qed

lemma wf_set_text_content: "wf_dom d \<Longrightarrow> wf_dom (set_text_content d i s)"
proof -
  assume wf: "wf_dom d"
  show ?thesis
  proof (cases "lookup d i")
    case None
    with wf show ?thesis by (simp add: set_text_content_def)
  next
    case (Some m)
    show ?thesis
    proof (cases m)
      case (Text j t)
      with Some have "set_text_content d i s = dom_map i (set_data s) d"
        by (simp add: set_text_content_def)
      moreover have "wf_dom (dom_map i (set_data s) d)"
        by (rule header_only_wf [OF wf]) simp
      ultimately show ?thesis by simp
    next
      case (Elem j tg cl at ch)
      then have e: "is_elem m" by simp
      note st = set_text_content_elem [OF wf_dom_distinct [OF wf] Some e, of s]
      have el: "is_elem (doc (set_text_content d i s))"
        using st(4) wf by (simp add: is_elem_map_at wf_dom_def)
      show ?thesis
        by (rule wf_grow [OF wf st(1) _ _ _ el]) (simp_all add: st(2))
    qed
  qed
qed

text \<open>
  Appending a tree of fresh nodes created by another script; the next fresh id moves
  past its ids.
\<close>

definition insert_node :: "dom \<Rightarrow> node_id \<Rightarrow> node \<Rightarrow> dom" where
  "insert_node d p x = (append_child d p x)\<lparr>next_id := Suc (fold max (ids x) (next_id d))\<rparr>"

text \<open>Moving a detached tree back under an element of the document.\<close>

definition reinsert_node :: "dom \<Rightarrow> node_id \<Rightarrow> node \<Rightarrow> dom" where
  "reinsert_node d p x = append_child (d\<lparr>detached := remove1 x (detached d)\<rparr>) p x"

lemma shape_with_children:
  "is_elem m \<Longrightarrow> shape (with_children m ch) = strip m # concat (map shape ch)"
  by (simp add: shape_hd [of "with_children m ch"])

lemma children_update_shape:
  assumes "distinct (dom_ids d)" and "lookup d p = Some pn" and "is_elem pn"
    and "mset (concat (map shape (g (children pn)))) = mset (concat (map shape (children pn))) + mset N"
  shows "mset (dom_shape (dom_map p (\<lambda>m. with_children m (g (children m))) d)) = mset (dom_shape d @ N)"
proof -
  have "mset (dom_shape (dom_map p (\<lambda>m. with_children m (g (children m))) d)) + mset (shape pn)
      = mset (dom_shape d) + mset (shape (with_children pn (g (children pn))))"
    by (rule dom_map_shape [OF assms(1,2)])
  moreover have "shape pn = strip pn # concat (map shape (children pn))" by (rule shape_hd)
  ultimately show ?thesis using assms(3,4) by (simp add: shape_with_children)
qed

lemma children_update_doc_elem:
  "is_elem (doc d) \<Longrightarrow> is_elem (doc (dom_map p (\<lambda>m. with_children m (g (children m))) d))"
  by (simp add: dom_map_def is_elem_map_at)

lemma insert_adjacent_text_shape:
  assumes "distinct (dom_ids d)" and "parent_of d i = Some p"
  shows "mset (dom_shape (insert_adjacent_text_afterend d i s)) = mset (dom_shape d @ [Text (next_id d) s])"
    and "next_id (insert_adjacent_text_afterend d i s) = Suc (next_id d)"
proof -
  obtain pn where pn: "lookup d p = Some pn" "i \<in> nid ` set (children pn)" "is_elem pn"
    using parent_of_Some [OF assms] by blast
  show "mset (dom_shape (insert_adjacent_text_afterend d i s)) = mset (dom_shape d @ [Text (next_id d) s])"
    using children_update_shape [OF assms(1) pn(1,3)] pn(2) assms(2)
    by (simp add: insert_adjacent_text_afterend_def mset_shape_ins_after)
  show "next_id (insert_adjacent_text_afterend d i s) = Suc (next_id d)"
    using assms(2) by (simp add: insert_adjacent_text_afterend_def)
qed

lemma append_child_shape:
  assumes "distinct (dom_ids d)" and "lookup d p = Some pn" and "is_elem pn"
  shows "mset (dom_shape (append_child d p x)) = mset (dom_shape d @ shape x)"
  using children_update_shape [OF assms, of "\<lambda>ch. ch @ [x]" "shape x"]
  by (simp add: append_child_def)

lemma mset_shape_remove1:
  "n \<in> set cs \<Longrightarrow> mset (concat (map shape (remove1 n cs))) + mset (shape n) = mset (concat (map shape cs))"
  by (induction cs) auto

lemma remove_node_shape:
  assumes "distinct (dom_ids d)"
  shows "mset (dom_shape (remove_node d i)) = mset (dom_shape d)"
proof (cases "parent_of d i")
  case None
  then show ?thesis by (simp add: remove_node_def)
next
  case (Some p)
  obtain pn where pn: "lookup d p = Some pn" "i \<in> nid ` set (children pn)" "is_elem pn"
    using parent_of_Some [OF assms Some] by blast
  then obtain c where c: "c \<in> set (children pn)" "nid c = i" by blast
  have "pn \<in> set (dom_nodes d)" using pn(1) assms by (simp add: lookup_Some)
  moreover have "c \<in> set (nodes pn)" using c(1) self_in_nodes by (rule nodes_child)
  ultimately have "c \<in> set (dom_nodes d)" by (rule dom_nodes_closed)
  then have lc: "lookup d i = Some c" using c(2) assms by (simp add: lookup_Some)
  let ?g = "\<lambda>ch. remove1 c ch"
  let ?D = "mset (dom_shape (dom_map p (\<lambda>m. with_children m (?g (children m))) d))"
  let ?A = "mset (concat (map shape (children pn)))"
  let ?R = "mset (concat (map shape (?g (children pn))))"
  have "?D + mset (shape pn) = mset (dom_shape d) + mset (shape (with_children pn (?g (children pn))))"
    by (rule dom_map_shape [OF assms pn(1)])
  then have e1: "?D + ?A = mset (dom_shape d) + ?R"
    using pn(3) shape_hd [of pn] by (simp add: shape_with_children)
  have e2: "?R + mset (shape c) = ?A" by (rule mset_shape_remove1 [OF c(1)])
  have "?D + mset (shape c) = mset (dom_shape d)"
  proof -
    have "(?D + mset (shape c)) + ?R = ?D + (?R + mset (shape c))"
      by (simp only: ac_simps)
    also have "\<dots> = ?D + ?A" by (simp only: e2)
    also have "\<dots> = mset (dom_shape d) + ?R" by (rule e1)
    finally show ?thesis by simp
  qed
  then show ?thesis
    using Some lc by (simp add: remove_node_def Let_def dom_shape_detach)
qed

lemma lookup_in_doc:
  "in_doc d p \<Longrightarrow> lookup d p = find (\<lambda>n. nid n = p) (nodes (doc d))"
  by (auto simp: lookup_def dom_nodes_def forest_def in_doc_def ids_def find_append
           split: option.split dest: find_key_None_iff [THEN iffD1])

lemma lookup_same_doc: "in_doc d p \<Longrightarrow> doc d' = doc d \<Longrightarrow> lookup d' p = lookup d p"
  by (simp add: lookup_in_doc in_doc_def)

lemma distinct_mset_part:
  "mset xs + mset ys = mset zs \<Longrightarrow> distinct zs \<Longrightarrow> distinct xs"
  by (metis distinct_append mset_append mset_eq_imp_distinct_iff)

lemma reinsert_node_shape:
  assumes "distinct (dom_ids d)" and "x \<in> set (detached d)" and "in_doc d p"
    and "lookup d p = Some pn" and "is_elem pn"
  shows "mset (dom_shape (reinsert_node d p x)) = mset (dom_shape d)"
proof -
  let ?d1 = "d\<lparr>detached := remove1 x (detached d)\<rparr>"
  have s1: "mset (dom_shape ?d1) + mset (shape x) = mset (dom_shape d)"
    using mset_shape_remove1 [OF assms(2)] by (simp add: dom_shape_concat forest_def ac_simps)
  have "mset (dom_ids ?d1) + mset (map nid (shape x)) = mset (dom_ids d)"
    using arg_cong [OF s1, of "image_mset nid"] by (simp add: dom_ids_shape)
  then have "distinct (dom_ids ?d1)" using assms(1) by (rule distinct_mset_part)
  moreover have "lookup ?d1 p = Some pn" using assms(3,4) lookup_same_doc [of d p ?d1] by simp
  ultimately have "mset (dom_shape (append_child ?d1 p x)) = mset (dom_shape ?d1 @ shape x)"
    using assms(5) by (rule append_child_shape)
  with s1 show ?thesis by (simp add: reinsert_node_def)
qed

subsection \<open>Every operation keeps the DOM well-formed\<close>

lemma wf_insert_adjacent_text: "wf_dom d \<Longrightarrow> wf_dom (insert_adjacent_text_afterend d i s)"
proof (cases "parent_of d i")
  case None
  then show "wf_dom d \<Longrightarrow> ?thesis" by (simp add: insert_adjacent_text_afterend_def)
next
  case (Some p)
  assume wf: "wf_dom d"
  note sh = insert_adjacent_text_shape [OF wf_dom_distinct [OF wf] Some, of s]
  have "is_elem (doc (insert_adjacent_text_afterend d i s))"
    using Some wf by (simp add: insert_adjacent_text_afterend_def children_update_doc_elem wf_dom_def)
  with sh show ?thesis by (intro wf_grow [OF wf sh(1)]) simp_all
qed

lemma wf_insert_node:
  assumes "wf_dom d" and "lookup d p = Some pn" and "is_elem pn"
    and "distinct (ids x)" and "list_all (\<lambda>j. next_id d \<le> j) (ids x)"
  shows "wf_dom (insert_node d p x)"
proof -
  have sh: "mset (dom_shape (insert_node d p x)) = mset (dom_shape d @ shape x)"
    using append_child_shape [OF wf_dom_distinct [OF assms(1)] assms(2,3)]
    by (simp add: insert_node_def)
  have el: "is_elem (doc (insert_node d p x))"
    using assms(1) children_update_doc_elem [of d p "\<lambda>ch. ch @ [x]"]
    by (simp add: insert_node_def append_child_def wf_dom_def)
  have "list_all (\<lambda>y. next_id d \<le> nid y \<and> nid y < next_id (insert_node d p x)) (shape x)"
    using assms(5) by (auto simp: insert_node_def list_all_iff ids_shape less_Suc_eq_le
                            intro: fold_max_ge_elem)
  moreover have "next_id d \<le> next_id (insert_node d p x)"
    by (simp add: insert_node_def le_SucI fold_max_ge_start)
  ultimately show ?thesis
    using assms(4) by (intro wf_grow [OF assms(1) sh _ _ _ el]) (simp_all add: ids_shape)
qed

lemma wf_remove_node: "wf_dom d \<Longrightarrow> wf_dom (remove_node d i)"
proof -
  assume wf: "wf_dom d"
  have sh: "mset (dom_shape (remove_node d i)) = mset (dom_shape d @ [])"
    using remove_node_shape [OF wf_dom_distinct [OF wf]] by simp
  have "is_elem (doc (remove_node d i))"
    using wf by (auto simp: remove_node_def Let_def children_update_doc_elem wf_dom_def
                      split: option.split)
  moreover have "next_id (remove_node d i) = next_id d"
    by (auto simp: remove_node_def Let_def split: option.split)
  ultimately show ?thesis by (intro wf_grow [OF wf sh]) simp_all
qed

lemma wf_reinsert_node:
  assumes "wf_dom d" and "x \<in> set (detached d)" and "in_doc d p"
    and "lookup d p = Some pn" and "is_elem pn"
  shows "wf_dom (reinsert_node d p x)"
proof -
  have sh: "mset (dom_shape (reinsert_node d p x)) = mset (dom_shape d @ [])"
    using reinsert_node_shape [OF wf_dom_distinct [OF assms(1)] assms(2-5)] by simp
  have "is_elem (doc (reinsert_node d p x))"
    using assms(1) children_update_doc_elem [of "d\<lparr>detached := remove1 x (detached d)\<rparr>" p "\<lambda>ch. ch @ [x]"]
    by (simp add: reinsert_node_def append_child_def wf_dom_def)
  moreover have "next_id (reinsert_node d p x) = next_id d"
    by (simp add: reinsert_node_def append_child_def)
  ultimately show ?thesis by (intro wf_grow [OF assms(1) sh]) simp_all
qed

section \<open>Frame: what the operations keep\<close>

text \<open>
  The attributes of a node, read through its header. Every operation keeps every node
  (ids only grow) and, but for \<open>setAttribute\<close>, every node's attributes.
\<close>

definition attrs_at :: "dom \<Rightarrow> node_id \<Rightarrow> (dom_string \<times> dom_string) list option" where
  "attrs_at d x = map_option attrs (header d x)"

definition keeps :: "dom \<Rightarrow> dom \<Rightarrow> bool" where
  "keeps d d' \<longleftrightarrow> (\<forall>x \<in> set (dom_ids d). x \<in> set (dom_ids d') \<and> attrs_at d' x = attrs_at d x)"

lemma attrs_strip [simp]: "attrs (strip n) = attrs n"
  by (cases n) simp_all

lemma keeps_refl [simp]: "keeps d d"
  by (simp add: keeps_def)

lemma keeps_trans: "keeps d1 d2 \<Longrightarrow> keeps d2 d3 \<Longrightarrow> keeps d1 d3"
  by (simp add: keeps_def)

lemma keeps_grow:
  assumes "wf_dom d" and "wf_dom d'" and "mset (dom_shape d') = mset (dom_shape d @ N)"
    and "list_all (\<lambda>y. next_id d \<le> nid y) N"
  shows "keeps d d'"
  unfolding keeps_def
proof
  fix x assume x: "x \<in> set (dom_ids d)"
  have "set (dom_ids d') = set (dom_ids d) \<union> nid ` set N"
    using arg_cong [OF assms(3), of "\<lambda>M. set_mset (image_mset nid M)"] by (simp add: dom_ids_shape)
  with x have "x \<in> set (dom_ids d')" by simp
  moreover have "x \<notin> nid ` set N"
    using x assms(1,4) by (fastforce simp: wf_dom_def list_all_iff)
  then have "header d' x = header d x"
    using assms(2,3) by (intro header_grow) (simp_all add: wf_dom_def)
  ultimately show "x \<in> set (dom_ids d') \<and> attrs_at d' x = attrs_at d x"
    by (simp add: attrs_at_def)
qed

lemma keeps_header_op:
  assumes "wf_dom d"
    and "\<And>m. nid (f m) = nid m \<and> children (f m) = children m \<and> attrs (f m) = attrs m"
  shows "keeps d (dom_map i f d)"
proof (cases "lookup d i")
  case None
  then show ?thesis by (simp add: dom_map_absent)
next
  case (Some m)
  have "mset (dom_ids (dom_map i f d)) = mset (dom_ids d)"
    using dom_map_ids [OF wf_dom_distinct [OF assms(1)] Some, of f] assms(2) ids_keep_children
    by simp
  then have "set (dom_ids (dom_map i f d)) = set (dom_ids d)" by (metis set_mset_mset)
  moreover have "attrs_at (dom_map i f d) x = attrs_at d x" for x
    using header_only_header [OF assms(1) Some, of f x] assms(2) Some
    by (simp add: attrs_at_def header_lookup)
  ultimately show ?thesis by (simp add: keeps_def)
qed

lemma keeps_class_add: "wf_dom d \<Longrightarrow> keeps d (class_add d i c)"
proof -
  have "attrs (add_class_node c m) = attrs m" for m by (cases m) simp_all
  then show "wf_dom d \<Longrightarrow> ?thesis" by (simp add: class_add_def keeps_header_op)
qed

lemma keeps_class_remove: "wf_dom d \<Longrightarrow> keeps d (class_remove d i c)"
proof -
  have "attrs (remove_class_node c m) = attrs m" for m by (cases m) simp_all
  then show "wf_dom d \<Longrightarrow> ?thesis" by (simp add: class_remove_def keeps_header_op)
qed

lemma keeps_set_text_content: "wf_dom d \<Longrightarrow> keeps d (set_text_content d i s)"
proof -
  assume wf: "wf_dom d"
  show ?thesis
  proof (cases "lookup d i")
    case None
    then show ?thesis by (simp add: set_text_content_def)
  next
    case (Some m)
    show ?thesis
    proof (cases m)
      case (Text j t)
      have "attrs (set_data s n) = attrs n" for n by (cases n) simp_all
      with Some Text wf show ?thesis by (simp add: set_text_content_def keeps_header_op)
    next
      case (Elem j tg cl at ch)
      note st = set_text_content_elem [OF wf_dom_distinct [OF wf] Some, of s]
      show ?thesis
        using st(1) Elem by (intro keeps_grow [OF wf wf_set_text_content [OF wf]]) auto
    qed
  qed
qed

lemma keeps_insert_adjacent_text: "wf_dom d \<Longrightarrow> keeps d (insert_adjacent_text_afterend d i s)"
proof (cases "parent_of d i")
  case None
  then show "wf_dom d \<Longrightarrow> ?thesis" by (simp add: insert_adjacent_text_afterend_def)
next
  case (Some p)
  assume wf: "wf_dom d"
  have sh: "mset (dom_shape (insert_adjacent_text_afterend d i s)) = mset (dom_shape d @ [Text (next_id d) s])"
    by (rule insert_adjacent_text_shape (1) [OF wf_dom_distinct [OF wf] Some])
  show ?thesis
    by (rule keeps_grow [OF wf wf_insert_adjacent_text [OF wf] sh]) simp
qed

lemma keeps_insert_node:
  assumes "wf_dom d" and "lookup d p = Some pn" and "is_elem pn"
    and "distinct (ids x)" and "list_all (\<lambda>j. next_id d \<le> j) (ids x)"
  shows "keeps d (insert_node d p x)"
proof -
  have "mset (dom_shape (insert_node d p x)) = mset (dom_shape d @ shape x)"
    using append_child_shape [OF wf_dom_distinct [OF assms(1)] assms(2,3)]
    by (simp add: insert_node_def)
  moreover have "list_all (\<lambda>y. next_id d \<le> nid y) (shape x)"
    using assms(5) by (simp add: ids_shape list_all_iff)
  ultimately show ?thesis
    by (intro keeps_grow [OF assms(1) wf_insert_node [OF assms]])
qed

lemma keeps_remove_node: "wf_dom d \<Longrightarrow> keeps d (remove_node d i)"
proof -
  assume wf: "wf_dom d"
  have sh: "mset (dom_shape (remove_node d i)) = mset (dom_shape d @ [])"
    using remove_node_shape [OF wf_dom_distinct [OF wf]] by simp
  show ?thesis by (rule keeps_grow [OF wf wf_remove_node [OF wf] sh]) simp
qed

lemma keeps_reinsert_node:
  assumes "wf_dom d" and "x \<in> set (detached d)" and "in_doc d p"
    and "lookup d p = Some pn" and "is_elem pn"
  shows "keeps d (reinsert_node d p x)"
proof -
  have sh: "mset (dom_shape (reinsert_node d p x)) = mset (dom_shape d @ [])"
    using reinsert_node_shape [OF wf_dom_distinct [OF assms(1)] assms(2-5)] by simp
  show ?thesis by (rule keeps_grow [OF assms(1) wf_reinsert_node [OF assms] sh]) simp
qed

text \<open>\<open>setAttribute\<close> changes the attributes of its target only.\<close>

lemma set_attribute_frame:
  assumes "wf_dom d" and "x \<in> set (dom_ids d)"
  shows "x \<in> set (dom_ids (set_attribute d i k v))"
    and "attrs_at (set_attribute d i k v) x
           = (if x = i then map_option (\<lambda>n. attrs (set_attr_node k v n)) (header d x) else attrs_at d x)"
proof -
  have ai: "x \<in> set (dom_ids (dom_map i (set_attr_node k v) d))"
    and "(x \<noteq> i \<longrightarrow> attrs_at (dom_map i (set_attr_node k v) d) x = attrs_at d x)"
  proof -
    show "x \<in> set (dom_ids (dom_map i (set_attr_node k v) d))"
    proof (cases "lookup d i")
      case None
      with assms(2) show ?thesis by (simp add: dom_map_absent)
    next
      case (Some m)
      have "mset (dom_ids (dom_map i (set_attr_node k v) d)) = mset (dom_ids d)"
        using dom_map_ids [OF wf_dom_distinct [OF assms(1)] Some, of "set_attr_node k v"]
          ids_keep_children [of "set_attr_node k v" m] by simp
      with assms(2) show ?thesis by (metis set_mset_mset)
    qed
    show "x \<noteq> i \<longrightarrow> attrs_at (dom_map i (set_attr_node k v) d) x = attrs_at d x"
      by (cases "lookup d i") (simp_all add: dom_map_absent attrs_at_def header_only_header [OF assms(1)])
  qed
  then show "x \<in> set (dom_ids (set_attribute d i k v))" by (simp add: set_attribute_def)
  have "x = i \<Longrightarrow> attrs_at (set_attribute d i k v) x
          = map_option (\<lambda>n. attrs (set_attr_node k v n)) (header d x)"
  proof -
    assume xi: "x = i"
    then obtain m where m: "lookup d i = Some m" using assms(2) by (metis lookup_None option.exhaust)
    have h1: "header (dom_map i (set_attr_node k v) d) i = Some (strip (set_attr_node k v m))"
      using header_only_header [OF assms(1) m, of "set_attr_node k v" i] by simp
    have h2: "header d i = Some (strip m)" by (simp add: header_lookup m)
    show ?thesis
      by (cases m) (simp_all add: set_attribute_def attrs_at_def h1 h2 xi)
  qed
  with \<open>x \<noteq> i \<longrightarrow> _\<close> show "attrs_at (set_attribute d i k v) x
           = (if x = i then map_option (\<lambda>n. attrs (set_attr_node k v n)) (header d x) else attrs_at d x)"
    by (simp add: set_attribute_def)
qed

text \<open>A node found by \<open>querySelector\<close> is an element of the DOM, below the start node.\<close>

lemma query_selector_found:
  assumes "wf_dom d" and "lookup d i = Some n" and "query_selector s n = Some j"
  shows "\<exists>jn. lookup d j = Some jn \<and> is_elem jn \<and> jn \<in> set (concat (map nodes (children n)))"
proof -
  obtain jn where jn: "jn \<in> set (concat (map nodes (children n)))" "nid jn = j" "is_elem jn"
    using qs_list_in_nodes assms(3) by (force simp: query_selector_def)
  have "n \<in> set (dom_nodes d)" using assms(1,2) by (simp add: lookup_Some wf_dom_def)
  moreover from jn(1) obtain c where "c \<in> set (children n)" "jn \<in> set (nodes c)" by auto
  then have "jn \<in> set (nodes n)" by (rule nodes_child)
  ultimately have "jn \<in> set (dom_nodes d)" by (rule dom_nodes_closed)
  with jn assms(1) show ?thesis by (auto simp: lookup_Some wf_dom_def)
qed

lemma lookup_nid: "lookup d j = Some jn \<Longrightarrow> nid jn = j"
  unfolding lookup_def by (drule find_SomeD) simp

lemma lookup_in_ids: "lookup d j = Some jn \<Longrightarrow> j \<in> set (dom_ids d)"
  by (metis lookup_None option.distinct(1))

subsection \<open>Lookups outside the updated subtree\<close>

text \<open>
  A node whose subtree does not hold the updated node survives \<open>map_at\<close>: it is still
  in the tree, unless it hung below the updated node (then it is a descendant of one of
  that node's old children).
\<close>

lemma nodes_map_at_keep:
  "xn \<in> set (nodes n) \<Longrightarrow> i \<notin> set (ids xn) \<Longrightarrow>
   xn \<in> set (nodes (map_at i f n))
   \<or> (\<exists>m \<in> set (nodes n). nid m = i \<and> (\<exists>c \<in> set (children m). xn \<in> set (nodes c)))"
proof (induction n)
  case (Text j t)
  then show ?case by (simp add: ids_def)
next
  case (Elem j tg cl at ch)
  show ?case
  proof (cases "xn = Elem j tg cl at ch")
    case True
    have "map_at i f xn = xn" using Elem.prems(2) True by (intro map_at_other) simp
    with True show ?thesis by simp
  next
    case False
    with Elem.prems(1) obtain c where c: "c \<in> set ch" "xn \<in> set (nodes c)" by auto
    show ?thesis
    proof (cases "i = j")
      case True
      with c show ?thesis by (intro disjI2 bexI [of _ "Elem j tg cl at ch"]) auto
    next
      case False
      from Elem.IH [OF c(1) c(2) Elem.prems(2)] show ?thesis
      proof
        assume "xn \<in> set (nodes (map_at i f c))"
        with c(1) False show ?thesis by auto
      next
        assume "\<exists>m \<in> set (nodes c). nid m = i \<and> (\<exists>c' \<in> set (children m). xn \<in> set (nodes c'))"
        with c(1) show ?thesis by auto
      qed
    qed
  qed
qed

lemma dom_nodes_dom_map_keep:
  assumes "distinct (dom_ids d)" and "lookup d x = Some xn" and "i \<notin> set (ids xn)"
    and "lookup d i = Some m"
  shows "xn \<in> set (dom_nodes (dom_map i f d)) \<or> (\<exists>c \<in> set (children m). xn \<in> set (nodes c))"
proof -
  have xn: "xn \<in> set (dom_nodes d)" using assms(1,2) by (simp add: lookup_Some)
  then obtain t where t: "t \<in> set (forest d)" "xn \<in> set (nodes t)" by (auto simp: dom_nodes_def)
  from nodes_map_at_keep [OF t(2) assms(3), of f] show ?thesis
  proof
    assume "xn \<in> set (nodes (map_at i f t))"
    with t(1) show ?thesis by (auto simp: dom_nodes_def forest_dom_map)
  next
    assume "\<exists>m' \<in> set (nodes t). nid m' = i \<and> (\<exists>c \<in> set (children m'). xn \<in> set (nodes c))"
    then obtain m' c where m': "m' \<in> set (nodes t)" "nid m' = i" "c \<in> set (children m')"
      "xn \<in> set (nodes c)" by blast
    have "m' \<in> set (dom_nodes d)" using t(1) m'(1) by (auto simp: dom_nodes_def)
    with m'(2) assms(1) have "lookup d i = Some m'" by (simp add: lookup_Some)
    with assms(4) have "m' = m" by simp
    with m'(3,4) show ?thesis by blast
  qed
qed

lemma lookup_dom_map_keep:
  assumes "distinct (dom_ids d)" and "distinct (dom_ids (dom_map i f d))"
    and "lookup d x = Some xn" and "i \<notin> set (ids xn)"
    and "lookup d i = Some m" and "nid (f m) = i" and "set (children m) \<subseteq> set (children (f m))"
  shows "lookup (dom_map i f d) x = Some xn"
proof -
  from dom_nodes_dom_map_keep [OF assms(1,3,4,5), of f]
  have "xn \<in> set (dom_nodes (dom_map i f d))"
  proof
    assume "xn \<in> set (dom_nodes (dom_map i f d))"
    then show ?thesis .
  next
    assume "\<exists>c \<in> set (children m). xn \<in> set (nodes c)"
    then obtain c where "c \<in> set (children (f m))" "xn \<in> set (nodes c)" using assms(7) by blast
    then have "xn \<in> set (nodes (f m))" by (rule nodes_child)
    moreover have "f m \<in> set (dom_nodes (dom_map i f d))"
      using dom_map_lookup_self [of d i m f, OF assms(1,5,6)] by (simp add: lookup_def find_SomeD)
    ultimately show ?thesis using dom_nodes_closed by blast
  qed
  with lookup_nid [OF assms(3)] assms(2) show ?thesis by (simp add: lookup_Some)
qed

text \<open>Class tokens read through a header, as \<open>classList.contains\<close> does.\<close>

definition has_class :: "dom \<Rightarrow> node_id \<Rightarrow> dom_string \<Rightarrow> bool" where
  "has_class d i c \<longleftrightarrow> (case header d i of None \<Rightarrow> False | Some h \<Rightarrow> c \<in> set (classes h))"

lemma classes_strip [simp]: "classes (strip n) = classes n"
  by (cases n) simp_all

lemma has_class_add:
  assumes "wf_dom d" and "lookup d i = Some m" and "is_elem m"
  shows "has_class (class_add d i c) x c' = (if x = i then c' = c \<or> has_class d i c' else has_class d x c')"
proof -
  have "nid m = i" using assms(1,2) by (simp add: lookup_Some wf_dom_def)
  then show ?thesis
    using header_only_header [OF assms(1,2), of "add_class_node c" x] assms(2,3)
    by (cases m) (auto simp: class_add_def has_class_def header_lookup)
qed

lemma has_class_remove:
  assumes "wf_dom d" and "lookup d i = Some m"
  shows "has_class (class_remove d i c) x c' = (if x = i then c' \<noteq> c \<and> has_class d i c' else has_class d x c')"
proof -
  have "nid m = i" using assms(1,2) by (simp add: lookup_Some wf_dom_def)
  then show ?thesis
    using header_only_header [OF assms(1,2), of "remove_class_node c" x] assms(2)
    by (cases m) (auto simp: class_remove_def has_class_def header_lookup)
qed

subsection \<open>Subtrees\<close>

lemma ids_subtree: "m \<in> set (nodes n) \<Longrightarrow> \<exists>xs ys. ids n = xs @ ids m @ ys"
proof (induction n)
  case (Text j t)
  then show ?case by auto
next
  case (Elem j tg cl at ch)
  show ?case
  proof (cases "m = Elem j tg cl at ch")
    case True
    then show ?thesis by (intro exI [of _ "[]"]) simp
  next
    case False
    with Elem.prems obtain c where c: "c \<in> set ch" "m \<in> set (nodes c)" by auto
    with Elem.IH obtain xs ys where "ids c = xs @ ids m @ ys" by blast
    moreover from c(1) obtain us vs where "ch = us @ c # vs" by (metis split_list)
    ultimately have "ids (Elem j tg cl at ch)
        = (j # concat (map ids us) @ xs) @ ids m @ (ys @ concat (map ids vs))"
      using ids_hd [of "Elem j tg cl at ch"] by simp
    then show ?thesis by blast
  qed
qed

lemma distinct_ids_node:
  assumes "distinct (dom_ids d)" and "n \<in> set (dom_nodes d)"
  shows "distinct (ids n)"
proof -
  from assms(2) obtain t where t: "t \<in> set (forest d)" "n \<in> set (nodes t)" by (auto simp: dom_nodes_def)
  then obtain xs ys where "ids t = xs @ ids n @ ys" using ids_subtree by blast
  moreover have "distinct (ids t)" using assms(1) t(1) by (auto simp: dom_ids_concat distinct_concat_iff)
  ultimately show ?thesis by simp
qed

text \<open>A proper descendant's subtree does not hold its ancestor.\<close>

lemma ancestor_not_below:
  assumes "distinct (ids n)" and "m \<in> set (concat (map nodes (children n)))"
  shows "nid n \<notin> set (ids m)"
proof -
  from assms(2) obtain c where c: "c \<in> set (children n)" "m \<in> set (nodes c)" by auto
  then obtain xs ys where "ids c = xs @ ids m @ ys" using ids_subtree by blast
  moreover have "nid n \<notin> set (concat (map ids (children n)))"
    using assms(1) by (simp add: ids_hd [of n])
  ultimately show ?thesis using c(1) by auto
qed

lemma header_set_text_content:
  assumes "wf_dom d" and "lookup d l = Some ln" and "is_elem ln" and "x \<in> set (dom_ids d)"
  shows "header (set_text_content d l s) x = header d x"
proof -
  note st = set_text_content_elem [OF wf_dom_distinct [OF assms(1)] assms(2,3), of s]
  have "x \<notin> nid ` set (if s = [] then [] else [Text (next_id d) s])"
    using assms(1,4) by (auto simp: wf_dom_def list_all_iff)
  then show ?thesis
    using st(1) wf_set_text_content [OF assms(1)] by (intro header_grow) (simp_all add: wf_dom_def)
qed

lemma header_insert_adjacent_text:
  assumes "wf_dom d" and "x \<in> set (dom_ids d)"
  shows "header (insert_adjacent_text_afterend d i s) x = header d x"
proof (cases "parent_of d i")
  case None
  then show ?thesis by (simp add: insert_adjacent_text_afterend_def)
next
  case (Some p)
  note sh = insert_adjacent_text_shape (1) [OF wf_dom_distinct [OF assms(1)] Some, of s]
  have "x \<notin> nid ` set [Text (next_id d) s]"
    using assms by (auto simp: wf_dom_def list_all_iff)
  then show ?thesis
    by (rule header_grow [OF wf_dom_distinct [OF wf_insert_adjacent_text [OF assms(1)]] sh])
qed

lemma has_class_header: "header d' x = header d x \<Longrightarrow> has_class d' x c = has_class d x c"
  by (simp add: has_class_def)

lemma lookup_header_elem:
  assumes "wf_dom d'" and "header d' x = header d x" and "lookup d x = Some xn" and "is_elem xn"
  shows "\<exists>m. lookup d' x = Some m \<and> is_elem m"
proof -
  have "header d' x = Some (strip xn)" using assms(2,3) by (simp add: header_lookup)
  then obtain m where "lookup d' x = Some m" "strip m = strip xn" by (auto simp: header_lookup)
  moreover have "is_elem (strip m) = is_elem m" for m by (cases m) simp_all
  ultimately show ?thesis using assms(4) by metis
qed

text \<open>The node a query finds lies strictly below the node the query ran on.\<close>

lemma query_selector_below:
  assumes "wf_dom d" and "lookup d i = Some n" and "query_selector s n = Some j"
  shows "\<exists>jn. lookup d j = Some jn \<and> is_elem jn \<and> i \<notin> set (ids jn)"
proof -
  obtain jn where jn: "lookup d j = Some jn" "is_elem jn" "jn \<in> set (concat (map nodes (children n)))"
    using query_selector_found [OF assms] by blast
  have d: "distinct (dom_ids d)" using assms(1) by (rule wf_dom_distinct)
  then have "n \<in> set (dom_nodes d)" "nid n = i" using assms(2) by (simp_all add: lookup_Some)
  then have "i \<notin> set (ids jn)"
    using ancestor_not_below [OF distinct_ids_node [OF d] jn(3)] by simp
  with jn show ?thesis by blast
qed

text \<open>An update of one node's header leaves every subtree that does not hold it in place.\<close>

lemma lookup_header_op_keep:
  assumes wf: "wf_dom d"
    and f: "\<And>m. nid (f m) = nid m \<and> children (f m) = children m \<and> is_elem (f m) = is_elem m"
    and x: "lookup d x = Some xn" and i: "i \<notin> set (ids xn)"
  shows "lookup (dom_map i f d) x = Some xn"
proof (cases "lookup d i")
  case None
  with x show ?thesis by (simp add: dom_map_absent)
next
  case (Some m)
  have "nid (f m) = i" using f lookup_nid [OF Some] by simp
  moreover have "set (children m) \<subseteq> set (children (f m))" using f by simp
  ultimately show ?thesis
    using lookup_dom_map_keep [OF wf_dom_distinct [OF wf] wf_dom_distinct [OF header_only_wf [OF wf f]] x i Some]
    by blast
qed

lemma lookup_class_keep:
  assumes "wf_dom d" and "lookup d x = Some xn" and "i \<notin> set (ids xn)"
  shows "lookup (class_add d i c) x = Some xn" and "lookup (class_remove d i c) x = Some xn"
  unfolding class_add_def class_remove_def
  by (rule lookup_header_op_keep [OF assms(1) _ assms(2,3)], simp)+

text \<open>
  After \<open>textContent = s\<close> on a node, the node holds the text \<open>s\<close> and its subtree is
  the node and at most the one new text node.
\<close>

lemma set_text_content_self:
  assumes "wf_dom d" and "lookup d l = Some ln"
  shows "\<exists>ln'. lookup (set_text_content d l s) l = Some ln' \<and> text_content ln' = s
           \<and> set (ids ln') \<subseteq> {l, next_id d}"
proof (cases ln)
  case (Text j t)
  have "nid (set_data s ln) = l" using lookup_nid [OF assms(2)] by simp
  with Text assms have "lookup (set_text_content d l s) l = Some (set_data s ln)"
    by (simp add: set_text_content_def dom_map_lookup_self wf_dom_distinct)
  moreover have "j = l" using Text lookup_nid [OF assms(2)] by simp
  ultimately show ?thesis using Text by (auto simp: ids_def)
next
  case (Elem j tg cl at ch)
  have "j = l" using Elem lookup_nid [OF assms(2)] by simp
  then show ?thesis
    using set_text_content_elem(3) [OF wf_dom_distinct [OF assms(1)] assms(2), of s] Elem
    by (auto simp: ids_def)
qed

subsection \<open>Parents and siblings\<close>

lemma nodes_parent: "x \<in> set (nodes t) \<Longrightarrow> x \<noteq> t \<Longrightarrow> \<exists>q \<in> set (nodes t). x \<in> set (children q)"
proof (induction t)
  case (Text j s)
  then show ?case by simp
next
  case (Elem j tg cl at ch)
  then obtain c where c: "c \<in> set ch" "x \<in> set (nodes c)" by auto
  show ?case
  proof (cases "x = c")
    case True
    with c(1) show ?thesis by (intro bexI [of _ "Elem j tg cl at ch"]) simp_all
  next
    case False
    with Elem.IH c obtain q where "q \<in> set (nodes c)" "x \<in> set (children q)" by blast
    with c(1) show ?thesis by auto
  qed
qed

text \<open>A node found strictly below another node has a parent.\<close>

lemma parent_of_below:
  assumes "distinct (dom_ids d)" and "n \<in> set (dom_nodes d)"
    and "jn \<in> set (concat (map nodes (children n)))"
  shows "\<exists>p. parent_of d (nid jn) = Some p"
proof -
  from assms(3) obtain c where c: "c \<in> set (children n)" "jn \<in> set (nodes c)" by auto
  have "\<exists>q \<in> set (nodes n). jn \<in> set (children q)"
  proof (cases "jn = c")
    case True
    with c(1) show ?thesis by (intro bexI [of _ n]) simp_all
  next
    case False
    with c nodes_parent [OF c(2)] show ?thesis using nodes_child by blast
  qed
  then obtain q where "q \<in> set (dom_nodes d)" "nid jn \<in> set (map nid (children q))"
    using dom_nodes_closed [OF assms(2)] by auto
  then have "find (\<lambda>n. nid jn \<in> set (map nid (children n))) (dom_nodes d) \<noteq> None"
    by (auto simp: find_None_iff)
  then show ?thesis by (auto simp: parent_of_def)
qed

lemma distinct_nid_children: "distinct (concat (map ids cs)) \<Longrightarrow> distinct (map nid cs)"
proof (induction cs)
  case Nil
  then show ?case by simp
next
  case (Cons c cs)
  have "nid c \<notin> nid ` set cs"
  proof
    assume "nid c \<in> nid ` set cs"
    then obtain c' where "c' \<in> set cs" "nid c = nid c'" by blast
    then have "nid c \<in> set (concat (map ids cs))" using nid_in_ids [of c'] by (auto intro: bexI [of _ c'])
    with Cons.prems show False by (auto simp: disjoint_iff)
  qed
  with Cons show ?case by simp
qed

text \<open>A child splits its parent's child list, with no sibling before it of the same id.\<close>

lemma split_children:
  assumes "distinct (ids pn)" and "c \<in> set (children pn)"
  shows "\<exists>us vs. children pn = us @ c # vs \<and> nid c \<notin> nid ` set us"
proof -
  obtain us vs where sp: "children pn = us @ c # vs" using assms(2) by (metis split_list)
  have "distinct (map nid (children pn))"
    using assms(1) distinct_nid_children by (simp add: ids_hd [of pn])
  with sp show ?thesis by auto
qed

lemma set_ins_after: "set cs \<subseteq> set (ins_after i x cs)"
  by (induction cs) auto

text \<open>
  \<open>insertAdjacentText('afterend')\<close> rewrites the parent's child list and nothing else: the
  parent gets the new sibling, every subtree that does not hold the parent is kept.
\<close>

lemma insert_adjacent_text_parent:
  assumes "wf_dom d" and "parent_of d i = Some p" and "lookup d p = Some pn"
  shows "lookup (insert_adjacent_text_afterend d i s) p
           = Some (with_children pn (ins_after i (Text (next_id d) s) (children pn)))"
  using assms dom_map_lookup_self [OF wf_dom_distinct [OF assms(1)] assms(3)] lookup_nid [OF assms(3)]
  by (simp add: insert_adjacent_text_afterend_def)

lemma insert_adjacent_text_keep:
  assumes wf: "wf_dom d" and p: "parent_of d i = Some p" "lookup d p = Some pn"
    and x: "lookup d x = Some xn" "p \<notin> set (ids xn)"
  shows "lookup (insert_adjacent_text_afterend d i s) x = Some xn"
proof -
  let ?f = "\<lambda>m. with_children m (ins_after i (Text (next_id d) s) (children m))"
  have "distinct (dom_ids (dom_map p ?f d))"
    using wf_dom_distinct [OF wf_insert_adjacent_text [OF wf, of i s]] p(1)
    by (simp add: insert_adjacent_text_afterend_def)
  moreover have "set (children pn) \<subseteq> set (children (?f pn))"
    using parent_of_Some [OF wf_dom_distinct [OF wf] p(1)] p(2) set_ins_after
    by (cases pn) auto
  ultimately have "lookup (dom_map p ?f d) x = Some xn"
    using lookup_dom_map_keep [OF wf_dom_distinct [OF wf] _ x p(2)] lookup_nid [OF p(2)] by simp
  with p(1) show ?thesis by (simp add: insert_adjacent_text_afterend_def)
qed

text \<open>
  \<open>textContent = s\<close> keeps every subtree that does not hold the updated node: the
  old children of the updated element move, unchanged, to the detached trees.
\<close>

lemma lookup_set_text_content_keep:
  assumes wf: "wf_dom d" and x: "lookup d x = Some xn" and l: "l \<notin> set (ids xn)"
  shows "lookup (set_text_content d l s) x = Some xn"
proof (cases "lookup d l")
  case None
  then show ?thesis using x by (simp add: set_text_content_def)
next
  case (Some m)
  show ?thesis
  proof (cases m)
    case (Text j t)
    with Some have "set_text_content d l s = dom_map l (set_data s) d" by (simp add: set_text_content_def)
    then show ?thesis using lookup_header_op_keep [OF wf _ x l, of "set_data s"] by simp
  next
    case (Elem j tg cl at ch)
    let ?new = "if s = [] then [] else [Text (next_id d) s]"
    let ?d1 = "dom_map l (\<lambda>m. with_children m ?new) d"
    have d': "set_text_content d l s = ?d1\<lparr>detached := detached ?d1 @ ch, next_id := next_id d + length ?new\<rparr>"
      using Some Elem by (simp add: set_text_content_def Let_def)
    have sub: "set (dom_nodes ?d1) \<subseteq> set (dom_nodes (set_text_content d l s))"
      and det: "c \<in> set ch \<Longrightarrow> c \<in> set (forest (set_text_content d l s))" for c
      unfolding d' by (auto simp: dom_nodes_def forest_def)
    from dom_nodes_dom_map_keep [OF wf_dom_distinct [OF wf] x l Some, of "\<lambda>m. with_children m ?new"]
    have "xn \<in> set (dom_nodes (set_text_content d l s))"
    proof
      assume "xn \<in> set (dom_nodes ?d1)"
      with sub show ?thesis by blast
    next
      assume "\<exists>c \<in> set (children m). xn \<in> set (nodes c)"
      then obtain c where "c \<in> set ch" "xn \<in> set (nodes c)" using Elem by auto
      with det show ?thesis by (auto simp: dom_nodes_def)
    qed
    with lookup_nid [OF x] wf_dom_distinct [OF wf_set_text_content [OF wf]] show ?thesis
      by (simp add: lookup_Some)
  qed
qed

subsection \<open>The skeleton: what selectors and text see\<close>

text \<open>
  Selectors read ids, local names, classes and the tree structure, never attribute
  values. The skeleton of a node forgets the attributes; \<open>setAttribute\<close> leaves the
  skeleton of the DOM as it is, so every query answers the same before and after.
\<close>

fun skel :: "node \<Rightarrow> node" where
  "skel (Text i s) = Text i s"
| "skel (Elem i tg cl at ch) = Elem i tg cl [] (map skel ch)"

definition dom_skel :: "dom \<Rightarrow> node list" where
  "dom_skel d = map skel (forest d)"

lemma skel_simps [simp]:
  "nid (skel n) = nid n" "is_elem (skel n) = is_elem n" "tag_of (skel n) = tag_of n"
  "classes (skel n) = classes n" "children (skel n) = map skel (children n)"
  "sel_matches s p (skel n) = sel_matches s p n"
  by (cases n; cases s; simp)+

lemma nodes_skel: "nodes (skel n) = map skel (nodes n)"
  by (induction n) (simp_all add: map_concat comp_def cong: map_cong)

lemma qs_list_skel: "qs_list s p (map skel cs) = qs_list s p cs"
proof (induction s p cs rule: qs_list.induct)
  case (3 s p i tg cl at ch cs)
  have "sel_matches s p (Elem i tg cl [] (map skel ch)) = sel_matches s p (Elem i tg cl at ch)"
    by (cases s) simp_all
  with 3 show ?case by (simp split: option.split)
qed simp_all

lemma query_selector_skel [simp]: "query_selector s (skel n) = query_selector s n"
  by (simp add: query_selector_def qs_list_skel)

lemma skel_set_attr: "skel (map_at i (set_attr_node k v) n) = skel n"
  by (induction n) (simp_all add: comp_def)

lemma dom_skel_set_attribute [simp]: "dom_skel (set_attribute d i k v) = dom_skel d"
  by (simp add: dom_skel_def set_attribute_def forest_dom_map comp_def skel_set_attr)

lemma lookup_skel: "map_option skel (lookup d i) = find (\<lambda>n. nid n = i) (concat (map nodes (dom_skel d)))"
proof -
  have "map skel (dom_nodes d) = concat (map nodes (dom_skel d))"
    by (simp add: dom_nodes_def dom_skel_def map_concat comp_def nodes_skel)
  moreover have "map_option skel (lookup d i) = find (\<lambda>n. nid n = i) (map skel (dom_nodes d))"
    by (simp add: lookup_def find_map_eq comp_def)
  ultimately show ?thesis by simp
qed

lemma lookup_skel_eq:
  "dom_skel d' = dom_skel d \<Longrightarrow> map_option skel (lookup d' i) = map_option skel (lookup d i)"
  by (simp add: lookup_skel)

subsection \<open>Re-inserting a detached tree\<close>

lemma distinct_concat_remove1:
  "distinct (concat (map g xs)) \<Longrightarrow> distinct (concat (map g (remove1 x xs)))"
proof (induction xs)
  case Nil
  then show ?case by simp
next
  case (Cons y ys)
  have "set (concat (map g (remove1 x ys))) \<subseteq> set (concat (map g ys))"
    using set_remove1_subset [of x ys] by auto
  with Cons show ?case by auto
qed

lemma in_ids_map_at:
  "i \<in> set (ids t) \<Longrightarrow> (\<And>m. nid (f m) = nid m) \<Longrightarrow> i \<in> set (ids (map_at i f t))"
proof (induction t)
  case (Text j s)
  then have "i = j" by (simp add: ids_def)
  with Text.prems(2) [of "Text j s"] nid_in_ids [of "f (Text j s)"] show ?case by simp
next
  case (Elem j tg cl at ch)
  show ?case
  proof (cases "i = j")
    case True
    with Elem.prems(2) [of "Elem j tg cl at ch"] nid_in_ids [of "f (Elem j tg cl at ch)"]
    show ?thesis by simp
  next
    case False
    with Elem.prems(1) obtain c where "c \<in> set ch" "i \<in> set (ids c)"
      by (auto simp: ids_hd [of "Elem j tg cl at ch"])
    with Elem.IH Elem.prems(2) have "i \<in> set (ids (map_at i f c))" "c \<in> set ch" by blast+
    with False show ?thesis by (auto simp: ids_hd [of "Elem j tg cl at (map (map_at i f) ch)"])
  qed
qed

text \<open>
  A detached tree appended again under an element of the document is the same tree,
  found under its root's id, and the parent is still in the document.
\<close>

lemma reinsert_node_root:
  assumes wf: "wf_dom d" and x: "x \<in> set (detached d)" and p: "in_doc d p"
    and pn: "lookup d p = Some pn" "is_elem pn"
  shows "lookup (reinsert_node d p x) (nid x) = Some x" and "in_doc (reinsert_node d p x) p"
proof -
  let ?d1 = "d\<lparr>detached := remove1 x (detached d)\<rparr>"
  let ?f = "\<lambda>m. with_children m (children m @ [x])"
  have "distinct (concat (map ids (doc d # remove1 x (detached d))))"
    using wf_dom_distinct [OF wf] distinct_concat_remove1 [of ids "detached d" x]
      set_remove1_subset [of x "detached d"]
    by (auto simp: dom_ids_concat forest_def)
  then have d1: "distinct (dom_ids ?d1)" by (simp add: dom_ids_concat forest_def)
  have l1: "lookup ?d1 p = Some pn" using lookup_same_doc [OF p, of ?d1] pn(1) by simp
  have "lookup (reinsert_node d p x) p = Some (?f pn)"
    using dom_map_lookup_self [OF d1 l1, of ?f] lookup_nid [OF pn(1)]
    by (simp add: reinsert_node_def append_child_def)
  then have "?f pn \<in> set (dom_nodes (reinsert_node d p x))" by (simp add: lookup_def find_SomeD)
  moreover have "x \<in> set (nodes (?f pn))" using pn(2) by (cases pn) auto
  ultimately have "x \<in> set (dom_nodes (reinsert_node d p x))" by (rule dom_nodes_closed)
  then show "lookup (reinsert_node d p x) (nid x) = Some x"
    using wf_dom_distinct [OF wf_reinsert_node [OF wf x p pn]] by (simp add: lookup_Some)
  show "in_doc (reinsert_node d p x) p"
    using in_ids_map_at [of p "doc d" ?f] p
    by (simp add: in_doc_def reinsert_node_def append_child_def dom_map_def)
qed

end
