(* ===== verification/Enhancer.thy ===== *)
theory Enhancer
  imports Dom
begin

text \<open>
  The program of src/themes/plaintech/static/js/copycode.js: the page state the script
  touches, its function \<open>enhance\<close>, the click listener it registers (its synchronous
  part, and the two continuations after the clipboard promise settles), the timer
  callback that restores the label, the mutation-observer callback, and the start-up code
  of the immediately invoked function.
\<close>

section \<open>Page state\<close>

text \<open>
  A registered click listener is the closure \<open>enhance\<close> creates: it holds the button
  and the code element it found.
\<close>

datatype listener = Copy_listener node_id node_id

fun button_of :: "listener \<Rightarrow> node_id" where
  "button_of (Copy_listener b _) = b"

fun code_of :: "listener \<Rightarrow> node_id" where
  "code_of (Copy_listener _ c) = c"

text \<open>
  A pending timer of \<open>setTimeout(..., 1600)\<close>: its due time and the closure's
  variables \<open>original\<close> (the label), \<open>button\<close> and \<open>oldText\<close>.
\<close>

datatype timer = Restore ms node_id node_id dom_string

fun due :: "timer \<Rightarrow> ms" where
  "due (Restore t _ _ _) = t"

fun timer_button :: "timer \<Rightarrow> node_id" where
  "timer_button (Restore _ _ b _) = b"

fun timer_label :: "timer \<Rightarrow> node_id" where
  "timer_label (Restore _ l _ _) = l"

text \<open>
  The page: the DOM, the click listeners in registration order (keyed by the element they
  are registered on), the clipboard writes whose promise has not settled yet (the button
  of the awaiting handler and the text), the pending timers, the system clipboard, the
  clock, whether the mutation observer is observing, and the mutation records queued for
  it (each the list of its added nodes).
\<close>

record page =
  dom :: dom
  listeners :: "(node_id \<times> listener) list"
  writes :: "(node_id \<times> dom_string) list"
  timers :: "timer list"
  clipboard :: dom_string
  now :: ms
  observing :: bool
  records :: "node_id list list"

text \<open>The selectors and the delay of the script.\<close>

definition CODE_SELECTOR :: selector where "CODE_SELECTOR = Class ''code-block''"
definition COPY_BTN :: selector where "COPY_BTN = Class ''copy-btn''"
definition CODE_EL :: selector where "CODE_EL = Child ''pre'' ''code''"
definition COPY_LABEL :: selector where "COPY_LABEL = Class ''copy-label''"
definition DELAY :: ms where "DELAY = 1600"

lemmas selector_defs = CODE_SELECTOR_def COPY_BTN_def CODE_EL_def COPY_LABEL_def

section \<open>DOM access from the page\<close>

text \<open>
  \<open>innerText\<close> and \<open>textContent\<close> read through a reference; a node that is not
  rendered (detached) gives its text content, and so does a \<open>pre\<close> element's code,
  whose white space is preserved.
\<close>

definition text_of :: "dom \<Rightarrow> node_id \<Rightarrow> dom_string" where
  "text_of d i = (case lookup d i of None \<Rightarrow> [] | Some n \<Rightarrow> text_content n)"

definition query_in :: "dom \<Rightarrow> selector \<Rightarrow> node_id \<Rightarrow> node_id option" where
  "query_in d s i = (case lookup d i of None \<Rightarrow> None | Some n \<Rightarrow> query_selector s n)"

text \<open>
  A child-list mutation inside the observed document is queued for the observer as a
  record of its added nodes, once \<open>observe\<close> has been called. Records without added
  nodes are left out: the callback does nothing with them.
\<close>

definition queue_record :: "page \<Rightarrow> node_id \<Rightarrow> node_id list \<Rightarrow> page" where
  "queue_record pg target added =
     (if observing pg \<and> in_doc (dom pg) target \<and> added \<noteq> []
      then pg\<lparr>records := records pg @ [added]\<rparr> else pg)"

definition page_set_text :: "page \<Rightarrow> node_id \<Rightarrow> dom_string \<Rightarrow> page" where
  "page_set_text pg i s =
     (let d = dom pg;
          added = (case lookup d i of Some (Elem _ _ _ _ _) \<Rightarrow> if s = [] then [] else [next_id d] | _ \<Rightarrow> [])
      in queue_record (pg\<lparr>dom := set_text_content d i s\<rparr>) i added)"

definition page_insert_text_after :: "page \<Rightarrow> node_id \<Rightarrow> dom_string \<Rightarrow> page" where
  "page_insert_text_after pg i s =
     (let d = dom pg
      in case parent_of d i of
           None \<Rightarrow> pg
         | Some p \<Rightarrow> queue_record (pg\<lparr>dom := insert_adjacent_text_afterend d i s\<rparr>) p [next_id d])"

section \<open>The script's functions\<close>

text \<open>
  \<open>enhance(block)\<close>: find the button and the code element; if either is missing, do
  nothing; else set \<open>aria-live\<close> and register a new click listener on the button.
\<close>

definition enhance :: "page \<Rightarrow> node_id \<Rightarrow> page" where
  "enhance pg block =
     (case (query_in (dom pg) COPY_BTN block, query_in (dom pg) CODE_EL block) of
        (Some button, Some codeEl) \<Rightarrow>
          pg\<lparr>dom := set_attribute (dom pg) button ''aria-live'' ''polite'',
             listeners := listeners pg @ [(button, Copy_listener button codeEl)]\<rparr>
      | _ \<Rightarrow> pg)"

text \<open>
  The listener up to its \<open>await\<close>: read the code's text and start the clipboard write;
  the handler then waits for the promise.
\<close>

fun start_copy :: "page \<Rightarrow> listener \<Rightarrow> page" where
  "start_copy pg (Copy_listener button codeEl) =
     pg\<lparr>writes := writes pg @ [(button, text_of (dom pg) codeEl)]\<rparr>"

text \<open>
  After the write resolved: if the button has a label, remember its text, show
  \<open>Copied\<close>, mark the button, and schedule the restore.
\<close>

definition copied :: "page \<Rightarrow> node_id \<Rightarrow> page" where
  "copied pg button =
     (case query_in (dom pg) COPY_LABEL button of
        None \<Rightarrow> pg
      | Some original \<Rightarrow>
          (let oldText = text_of (dom pg) original;
               pg1 = page_set_text pg original ''Copied'';
               pg2 = pg1\<lparr>dom := class_add (dom pg1) button ''copied''\<rparr>
           in pg2\<lparr>timers := timers pg2 @ [Restore (now pg + DELAY) original button oldText]\<rparr>))"

text \<open>After the write was rejected: the hint after the label, if there is a label.\<close>

definition copy_failed :: "page \<Rightarrow> node_id \<Rightarrow> page" where
  "copy_failed pg button =
     (case query_in (dom pg) COPY_LABEL button of
        None \<Rightarrow> pg
      | Some l \<Rightarrow> page_insert_text_after pg l '' (press Cmd/Ctrl+C)'')"

text \<open>The timer callback: \<open>oldText || 'Copy'\<close>, and the marker removed.\<close>

fun restore :: "page \<Rightarrow> timer \<Rightarrow> page" where
  "restore pg (Restore _ original button oldText) =
     (let pg1 = page_set_text pg original (if oldText = [] then ''Copy'' else oldText)
      in pg1\<lparr>dom := class_remove (dom pg1) button ''copied''\<rparr>)"

text \<open>
  The observer callback: every added node that is an element and matches the block
  selector itself is enhanced; descendants of added nodes are not looked at.
\<close>

definition is_block :: "dom \<Rightarrow> node_id \<Rightarrow> bool" where
  "is_block d n = (case lookup d n of None \<Rightarrow> False | Some m \<Rightarrow> is_elem m \<and> sel_matches CODE_SELECTOR None m)"

definition on_mutations :: "page \<Rightarrow> node_id list list \<Rightarrow> page" where
  "on_mutations pg mutations =
     fold (\<lambda>m pg. fold (\<lambda>n pg. if is_block (dom pg) n then enhance pg n else pg) m pg) mutations pg"

text \<open>
  The start-up of the immediately invoked function: the initial scan enhances every block
  of the document in document order (\<open>querySelectorAll\<close> on the document includes
  the document element); then the observer starts observing.
\<close>

definition initial_scan :: "page \<Rightarrow> page" where
  "initial_scan pg =
     fold (\<lambda>b pg. enhance pg b) (query_selector_all CODE_SELECTOR None [doc (dom pg)]) pg"

definition start_observing :: "page \<Rightarrow> page" where
  "start_observing pg = pg\<lparr>observing := True\<rparr>"

definition page0 :: "dom \<Rightarrow> page" where
  "page0 d = \<lparr>dom = d, listeners = [], writes = [], timers = [], clipboard = [], now = 0,
              observing = False, records = []\<rparr>"

text \<open>Without the Clipboard API the function returns at once.\<close>

definition boot :: "bool \<Rightarrow> dom \<Rightarrow> page" where
  "boot has_clipboard d =
     (if \<not> has_clipboard then page0 d else start_observing (initial_scan (page0 d)))"

end
