(* ===== verification/Page.thy ===== *)
theory Page
  imports Enhancer
begin

text \<open>
  The browser's event loop around the script, as a step function over events: a user
  click, the settling of a pending clipboard promise (resolve or reject), a timer firing,
  the clock advancing, the page's other scripts inserting, removing or re-inserting
  nodes, and the delivery of queued mutation records to the observer. A step that is not
  enabled gives \<open>None\<close>. The order in which enabled events happen is left open, which
  over-approximates the browser's task and microtask queues: a property shown for every
  order holds for the browser's.
\<close>

section \<open>Events\<close>

datatype event =
    Click node_id
  | Resolve nat
  | Reject nat
  | Fire nat
  | Tick ms
  | Insert node_id node
  | Remove node_id
  | Reinsert node_id node_id
  | Deliver

text \<open>
  A click on a node runs the click listeners of the node and of its ancestors, target
  first (bubbling), each node's listeners in registration order.
\<close>

definition propagation_path :: "dom \<Rightarrow> node_id \<Rightarrow> node_id list" where
  "propagation_path d t = rev [nid m. m \<leftarrow> nodes (doc d), t \<in> set (ids m)]"

definition listeners_on :: "page \<Rightarrow> node_id \<Rightarrow> listener list" where
  "listeners_on pg x = [l. (y, l) \<leftarrow> listeners pg, y = x]"

definition click :: "page \<Rightarrow> node_id \<Rightarrow> page" where
  "click pg t = fold (\<lambda>l pg. start_copy pg l) (concat (map (listeners_on pg) (propagation_path (dom pg) t))) pg"

text \<open>Nodes the page's scripts create carry fresh ids.\<close>

definition fresh_tree :: "dom \<Rightarrow> node \<Rightarrow> bool" where
  "fresh_tree d x \<longleftrightarrow> distinct (ids x) \<and> list_all (\<lambda>j. next_id d \<le> j) (ids x)"

definition elem_in_doc :: "dom \<Rightarrow> node_id \<Rightarrow> bool" where
  "elem_in_doc d p \<longleftrightarrow> in_doc d p \<and> (case lookup d p of Some n \<Rightarrow> is_elem n | None \<Rightarrow> False)"

definition insert_tree :: "page \<Rightarrow> node_id \<Rightarrow> node \<Rightarrow> page" where
  "insert_tree pg p x = queue_record (pg\<lparr>dom := insert_node (dom pg) p x\<rparr>) p [nid x]"

definition reinsert_tree :: "page \<Rightarrow> node_id \<Rightarrow> node \<Rightarrow> page" where
  "reinsert_tree pg p x = queue_record (pg\<lparr>dom := reinsert_node (dom pg) p x\<rparr>) p [nid x]"

section \<open>Steps\<close>

fun step :: "page \<Rightarrow> event \<Rightarrow> page option" where
  "step pg (Click t) = (if in_doc (dom pg) t then Some (click pg t) else None)"
| "step pg (Resolve k) =
     (if k < length (writes pg)
      then Some (copied (pg\<lparr>writes := drop_nth k (writes pg), clipboard := snd (writes pg ! k)\<rparr>)
                        (fst (writes pg ! k)))
      else None)"
| "step pg (Reject k) =
     (if k < length (writes pg)
      then Some (copy_failed (pg\<lparr>writes := drop_nth k (writes pg)\<rparr>) (fst (writes pg ! k)))
      else None)"
| "step pg (Fire k) =
     (if k < length (timers pg) \<and> due (timers pg ! k) \<le> now pg
      then Some (restore (pg\<lparr>timers := drop_nth k (timers pg)\<rparr>) (timers pg ! k))
      else None)"
| "step pg (Tick n) = Some (pg\<lparr>now := now pg + n\<rparr>)"
| "step pg (Insert p x) =
     (if elem_in_doc (dom pg) p \<and> fresh_tree (dom pg) x then Some (insert_tree pg p x) else None)"
| "step pg (Remove i) =
     (if in_doc (dom pg) i \<and> i \<noteq> nid (doc (dom pg)) then Some (pg\<lparr>dom := remove_node (dom pg) i\<rparr>)
      else None)"
| "step pg (Reinsert p r) =
     (case find (\<lambda>n. nid n = r) (detached (dom pg)) of
        Some x \<Rightarrow> if elem_in_doc (dom pg) p then Some (reinsert_tree pg p x) else None
      | None \<Rightarrow> None)"
| "step pg Deliver =
     (if records pg \<noteq> [] then Some (on_mutations (pg\<lparr>records := []\<rparr>) (records pg)) else None)"

text \<open>A run of events; it stops (\<open>None\<close>) at the first event that is not enabled.\<close>

fun run :: "page \<Rightarrow> event list \<Rightarrow> page option" where
  "run pg [] = Some pg"
| "run pg (e # es) = (case step pg e of None \<Rightarrow> None | Some pg' \<Rightarrow> run pg' es)"

text \<open>The pages reachable from the start-up of the script on a well-formed document.\<close>

inductive reachable :: "bool \<Rightarrow> page \<Rightarrow> bool" for has_clipboard where
  boot: "wf_dom d \<Longrightarrow> reachable has_clipboard (boot has_clipboard d)"
| step: "reachable has_clipboard pg \<Longrightarrow> step pg e = Some pg' \<Longrightarrow> reachable has_clipboard pg'"

section \<open>Clicks\<close>

fun write_of :: "dom \<Rightarrow> listener \<Rightarrow> node_id \<times> dom_string" where
  "write_of d (Copy_listener button codeEl) = (button, text_of d codeEl)"

text \<open>
  A click changes nothing but the pending writes: it appends one write per listener on the
  propagation path, in dispatch order, each with the code element's text at click time.
\<close>

lemma fold_start_copy:
  "fold (\<lambda>l pg. start_copy pg l) ls pg = pg\<lparr>writes := writes pg @ map (write_of (dom pg)) ls\<rparr>"
proof (induction ls arbitrary: pg)
  case Nil
  then show ?case by simp
next
  case (Cons l ls)
  then show ?case by (cases l) simp
qed

lemma click_eq:
  "click pg t = pg\<lparr>writes := writes pg @
      map (write_of (dom pg)) (concat (map (listeners_on pg) (propagation_path (dom pg) t)))\<rparr>"
  by (simp add: click_def fold_start_copy)

lemma listeners_on_Nil [simp]: "listeners pg = [] \<Longrightarrow> listeners_on pg x = []"
  by (simp add: listeners_on_def)

lemma run_append:
  "run pg (es @ fs) = (case run pg es of None \<Rightarrow> None | Some pg' \<Rightarrow> run pg' fs)"
  by (induction es arbitrary: pg) (auto split: option.split)

lemma run_reachable:
  "reachable c pg \<Longrightarrow> run pg es = Some pg' \<Longrightarrow> reachable c pg'"
  by (induction es arbitrary: pg) (auto split: option.splits intro: reachable.step)

end
