(* ===== verification/Invariants.thy ===== *)
theory Invariants
  imports Page
begin

text \<open>
  The invariant of the page under the event loop: the DOM is well-formed; every node a
  listener, a pending write or a pending timer refers to is still a node of the DOM
  (attached or detached, so no handler ever works on a dangling reference); and every
  button that carries a click listener is marked \<open>aria-live="polite"\<close>. Each page
  operation keeps it, so every reachable page satisfies it.
\<close>

definition aria_live :: "dom \<Rightarrow> node_id \<Rightarrow> bool" where
  "aria_live d b \<longleftrightarrow> (case attrs_at d b of None \<Rightarrow> False | Some at \<Rightarrow> map_of at ''aria-live'' = Some ''polite'')"

fun listener_ok :: "dom \<Rightarrow> node_id \<times> listener \<Rightarrow> bool" where
  "listener_ok d (x, Copy_listener b c) \<longleftrightarrow>
     x = b \<and> b \<in> set (dom_ids d) \<and> c \<in> set (dom_ids d) \<and> aria_live d b"

fun timer_ok :: "dom \<Rightarrow> timer \<Rightarrow> bool" where
  "timer_ok d (Restore _ l b _) \<longleftrightarrow> l \<in> set (dom_ids d) \<and> b \<in> set (dom_ids d) \<and> l \<noteq> b"

definition inv_page :: "page \<Rightarrow> bool" where
  "inv_page pg \<longleftrightarrow> wf_dom (dom pg)
     \<and> list_all (listener_ok (dom pg)) (listeners pg)
     \<and> list_all (\<lambda>w. fst w \<in> set (dom_ids (dom pg))) (writes pg)
     \<and> list_all (timer_ok (dom pg)) (timers pg)"

section \<open>Keeping the DOM keeps the references\<close>

lemma aria_live_keeps: "keeps d d' \<Longrightarrow> b \<in> set (dom_ids d) \<Longrightarrow> aria_live d b \<Longrightarrow> aria_live d' b"
  by (simp add: keeps_def aria_live_def)

lemma listener_ok_keeps: "keeps d d' \<Longrightarrow> listener_ok d xl \<Longrightarrow> listener_ok d' xl"
proof -
  assume k: "keeps d d'" and ok: "listener_ok d xl"
  obtain x b c where xl: "xl = (x, Copy_listener b c)" by (metis listener.exhaust prod.exhaust)
  with k ok show ?thesis by (auto simp: keeps_def aria_live_def)
qed

lemma timer_ok_keeps: "keeps d d' \<Longrightarrow> timer_ok d t \<Longrightarrow> timer_ok d' t"
  by (cases t) (simp add: keeps_def)

lemma inv_page_keeps:
  "inv_page pg \<Longrightarrow> wf_dom d' \<Longrightarrow> keeps (dom pg) d' \<Longrightarrow> inv_page (pg\<lparr>dom := d'\<rparr>)"
  unfolding inv_page_def
  by (auto simp: list_all_iff keeps_def intro: listener_ok_keeps timer_ok_keeps)

lemma queue_record_simps [simp]:
  "dom (queue_record pg t a) = dom pg" "listeners (queue_record pg t a) = listeners pg"
  "writes (queue_record pg t a) = writes pg" "timers (queue_record pg t a) = timers pg"
  "now (queue_record pg t a) = now pg" "clipboard (queue_record pg t a) = clipboard pg"
  "observing (queue_record pg t a) = observing pg"
  by (simp_all add: queue_record_def)

lemma inv_page_queue [simp]: "inv_page (queue_record pg t a) = inv_page pg"
  by (simp add: inv_page_def)

lemma inv_page_wf: "inv_page pg \<Longrightarrow> wf_dom (dom pg)"
  by (simp add: inv_page_def)

lemma inv_page_set_text: "inv_page pg \<Longrightarrow> inv_page (page_set_text pg i s)"
proof -
  assume inv: "inv_page pg"
  note wf = inv_page_wf [OF inv]
  show ?thesis
    by (simp add: page_set_text_def Let_def)
       (rule inv_page_keeps [OF inv wf_set_text_content [OF wf] keeps_set_text_content [OF wf]])
qed

lemma inv_page_insert_text_after: "inv_page pg \<Longrightarrow> inv_page (page_insert_text_after pg i s)"
proof -
  assume inv: "inv_page pg"
  note wf = inv_page_wf [OF inv]
  have "inv_page (pg\<lparr>dom := insert_adjacent_text_afterend (dom pg) i s\<rparr>)"
    by (rule inv_page_keeps [OF inv wf_insert_adjacent_text [OF wf] keeps_insert_adjacent_text [OF wf]])
  with inv show ?thesis
    by (simp add: page_insert_text_after_def Let_def split: option.split)
qed

lemma query_in_found:
  "wf_dom d \<Longrightarrow> query_in d s i = Some j
     \<Longrightarrow> \<exists>jn. lookup d j = Some jn \<and> is_elem jn \<and> i \<notin> set (ids jn)"
  by (auto simp: query_in_def split: option.splits dest: query_selector_below)

section \<open>The script's functions keep the invariant\<close>

lemma aria_live_set:
  assumes "wf_dom d" and "lookup d b = Some bn" and "is_elem bn"
  shows "aria_live (set_attribute d b ''aria-live'' ''polite'') b"
proof -
  have "b \<in> set (dom_ids d)" using assms(2) by (rule lookup_in_ids)
  then show ?thesis
    using set_attribute_frame (2) [OF assms(1), of b b] assms(2,3)
    by (cases bn) (simp_all add: aria_live_def header_lookup update_conv')
qed

lemma listener_ok_set_attribute:
  assumes "wf_dom d" and "lookup d b = Some bn" and "is_elem bn" and "listener_ok d xl"
  shows "listener_ok (set_attribute d b ''aria-live'' ''polite'') xl"
proof -
  obtain x b' c where xl: "xl = (x, Copy_listener b' c)" by (metis listener.exhaust prod.exhaust)
  with assms(4) have "b' \<in> set (dom_ids d)" "c \<in> set (dom_ids d)" "aria_live d b'" by simp_all
  moreover have "aria_live (set_attribute d b ''aria-live'' ''polite'') b'"
  proof (cases "b' = b")
    case True
    with aria_live_set [OF assms(1-3)] show ?thesis by simp
  next
    case False
    with \<open>aria_live d b'\<close> \<open>b' \<in> set (dom_ids d)\<close> show ?thesis
      by (simp add: aria_live_def set_attribute_frame [OF assms(1)])
  qed
  ultimately show ?thesis using assms(4) xl by (simp add: set_attribute_frame [OF assms(1)])
qed

lemma inv_page_enhance: "inv_page pg \<Longrightarrow> inv_page (enhance pg blk)"
proof -
  assume inv: "inv_page pg"
  note wf = inv_page_wf [OF inv]
  show ?thesis
  proof (cases "query_in (dom pg) COPY_BTN blk")
    case (Some b)
    show ?thesis
    proof (cases "query_in (dom pg) CODE_EL blk")
      case (Some c)
      obtain bn where bn: "lookup (dom pg) b = Some bn" "is_elem bn"
        using query_in_found [OF wf \<open>query_in _ COPY_BTN blk = Some b\<close>] by blast
      obtain cn where cn: "lookup (dom pg) c = Some cn"
        using query_in_found [OF wf Some] by blast
      let ?d = "set_attribute (dom pg) b ''aria-live'' ''polite''"
      have ids: "\<And>x. x \<in> set (dom_ids (dom pg)) \<Longrightarrow> x \<in> set (dom_ids ?d)"
        by (rule set_attribute_frame (1) [OF wf])
      have "listener_ok ?d (b, Copy_listener b c)"
        using aria_live_set [OF wf bn] ids lookup_in_ids [OF bn(1)] lookup_in_ids [OF cn] by simp
      moreover have "list_all (listener_ok ?d) (listeners pg)"
        using inv listener_ok_set_attribute [OF wf bn] by (auto simp: inv_page_def list_all_iff)
      moreover have "list_all (timer_ok ?d) (timers pg)"
      proof -
        have "timer_ok (dom pg) t \<Longrightarrow> timer_ok ?d t" for t by (cases t) (simp add: ids)
        with inv show ?thesis by (auto simp: inv_page_def list_all_iff)
      qed
      ultimately show ?thesis
        using inv \<open>query_in _ COPY_BTN blk = Some b\<close> Some ids
        by (auto simp: enhance_def inv_page_def wf_set_attribute list_all_iff)
    qed (simp add: enhance_def inv \<open>query_in _ COPY_BTN blk = Some b\<close>)
  qed (simp add: enhance_def inv)
qed

lemma inv_page_dom_update:
  "inv_page pg \<Longrightarrow> (\<And>d. wf_dom d \<Longrightarrow> wf_dom (f d) \<and> keeps d (f d)) \<Longrightarrow> inv_page (pg\<lparr>dom := f (dom pg)\<rparr>)"
  using inv_page_keeps inv_page_wf by blast

lemma keeps_ids: "keeps d d' \<Longrightarrow> x \<in> set (dom_ids d) \<Longrightarrow> x \<in> set (dom_ids d')"
  by (simp add: keeps_def)

lemma keeps_page_set_text: "inv_page pg \<Longrightarrow> keeps (dom pg) (dom (page_set_text pg i s))"
  by (simp add: page_set_text_def Let_def keeps_set_text_content inv_page_wf)

lemma inv_page_copied:
  assumes inv: "inv_page pg" and b: "b \<in> set (dom_ids (dom pg))"
  shows "inv_page (copied pg b)"
proof (cases "query_in (dom pg) COPY_LABEL b")
  case None
  with inv show ?thesis by (simp add: copied_def)
next
  case (Some l)
  let ?pg1 = "page_set_text pg l ''Copied''"
  let ?pg2 = "?pg1\<lparr>dom := class_add (dom ?pg1) b ''copied''\<rparr>"
  have inv1: "inv_page ?pg1" by (rule inv_page_set_text [OF inv])
  have wf1: "wf_dom (dom ?pg1)" by (rule inv_page_wf [OF inv1])
  have inv2: "inv_page ?pg2"
    by (rule inv_page_keeps [OF inv1 wf_class_add [OF wf1] keeps_class_add [OF wf1]])
  have k: "keeps (dom pg) (dom ?pg2)"
    using keeps_trans [OF keeps_page_set_text [OF inv] keeps_class_add [OF wf1]] by simp
  obtain ln where ln: "lookup (dom pg) l = Some ln" "b \<notin> set (ids ln)"
    using query_in_found [OF inv_page_wf [OF inv] Some] by blast
  then have "l \<in> set (dom_ids (dom pg))" "l \<noteq> b"
    using lookup_in_ids lookup_nid nid_in_ids by metis+
  with b k have "timer_ok (dom ?pg2) (Restore (now pg + DELAY) l b (text_of (dom pg) l))"
    by (simp add: keeps_ids)
  with inv2 Some show ?thesis by (simp add: copied_def Let_def inv_page_def)
qed

lemma inv_page_copy_failed: "inv_page pg \<Longrightarrow> inv_page (copy_failed pg b)"
  by (simp add: copy_failed_def inv_page_insert_text_after split: option.split)

lemma inv_page_restore: "inv_page pg \<Longrightarrow> inv_page (restore pg t)"
proof (cases t)
  case (Restore due l b old)
  assume inv: "inv_page pg"
  let ?pg1 = "page_set_text pg l (if old = [] then ''Copy'' else old)"
  have inv1: "inv_page ?pg1" by (rule inv_page_set_text [OF inv])
  have wf1: "wf_dom (dom ?pg1)" by (rule inv_page_wf [OF inv1])
  show ?thesis
    using inv_page_keeps [OF inv1 wf_class_remove [OF wf1] keeps_class_remove [OF wf1]] Restore
    by (simp add: Let_def)
qed

lemma inv_page_fold:
  "(\<And>x pg. inv_page pg \<Longrightarrow> inv_page (f x pg)) \<Longrightarrow> inv_page pg \<Longrightarrow> inv_page (fold f xs pg)"
  by (rule fold_invariant [where Q = "\<lambda>_. True"]) auto

lemma inv_page_on_mutations: "inv_page pg \<Longrightarrow> inv_page (on_mutations pg ms)"
  unfolding on_mutations_def
  by (intro inv_page_fold) (simp_all add: inv_page_enhance)

lemma inv_page_boot: "wf_dom d \<Longrightarrow> inv_page (boot c d)"
proof -
  assume "wf_dom d"
  then have "inv_page (page0 d)" by (simp add: inv_page_def page0_def)
  then have "inv_page (initial_scan (page0 d))"
    unfolding initial_scan_def by (intro inv_page_fold) (simp_all add: inv_page_enhance)
  with \<open>inv_page (page0 d)\<close> show ?thesis
    by (simp add: boot_def start_observing_def inv_page_def)
qed

section \<open>Every step keeps the invariant\<close>

lemma inv_page_fields:
  "inv_page pg \<Longrightarrow> set ws \<subseteq> set (writes pg) \<Longrightarrow> set ts \<subseteq> set (timers pg)
   \<Longrightarrow> inv_page (pg\<lparr>writes := ws, timers := ts, clipboard := cb, now := t\<rparr>)"
  by (auto simp: inv_page_def list_all_iff)

text \<open>Settling a promise or firing a timer takes it out of its queue; the rest stays valid.\<close>

lemma inv_page_drop_write:
  assumes "inv_page pg"
  shows "inv_page (pg\<lparr>writes := drop_nth k (writes pg), clipboard := cb\<rparr>)"
  using inv_page_fields [OF assms set_drop_nth_subset subset_refl, where cb = cb and t = "now pg"]
  by simp

lemma inv_page_drop_timer:
  assumes "inv_page pg"
  shows "inv_page (pg\<lparr>timers := drop_nth k (timers pg)\<rparr>)"
  using inv_page_fields [OF assms subset_refl set_drop_nth_subset, where cb = "clipboard pg" and t = "now pg"]
  by simp

lemma write_of_button:
  "listener_ok d (x, l) \<Longrightarrow> fst (write_of d' l) \<in> set (dom_ids d)"
  by (cases l) simp

lemma inv_page_click: "inv_page pg \<Longrightarrow> inv_page (click pg t)"
proof -
  assume inv: "inv_page pg"
  have "\<forall>l \<in> set (concat (map (listeners_on pg) (propagation_path (dom pg) t))).
          fst (write_of (dom pg) l) \<in> set (dom_ids (dom pg))"
    using inv by (fastforce simp: listeners_on_def inv_page_def list_all_iff intro: write_of_button)
  with inv show ?thesis by (auto simp: click_eq inv_page_def list_all_iff)
qed

lemma inv_page_step: "inv_page pg \<Longrightarrow> step pg e = Some pg' \<Longrightarrow> inv_page pg'"
proof (cases e)
  case (Click t)
  then show "inv_page pg \<Longrightarrow> step pg e = Some pg' \<Longrightarrow> ?thesis"
    by (auto simp: inv_page_click split: if_splits)
next
  case (Resolve k)
  assume inv: "inv_page pg" and st: "step pg e = Some pg'"
  with Resolve have k: "k < length (writes pg)" by (simp split: if_splits)
  let ?pg = "pg\<lparr>writes := drop_nth k (writes pg), clipboard := snd (writes pg ! k)\<rparr>"
  have "inv_page ?pg" by (rule inv_page_drop_write [OF inv])
  moreover have "fst (writes pg ! k) \<in> set (dom_ids (dom ?pg))"
    using inv k by (simp add: inv_page_def list_all_iff)
  ultimately show ?thesis using st Resolve k by (auto intro: inv_page_copied)
next
  case (Reject k)
  assume inv: "inv_page pg" and st: "step pg e = Some pg'"
  have "inv_page (pg\<lparr>writes := drop_nth k (writes pg)\<rparr>)"
    using inv_page_drop_write [OF inv, where k = k and cb = "clipboard pg"] by simp
  with st Reject show ?thesis by (auto simp: inv_page_copy_failed split: if_splits)
next
  case (Fire k)
  assume inv: "inv_page pg" and st: "step pg e = Some pg'"
  have "inv_page (pg\<lparr>timers := drop_nth k (timers pg)\<rparr>)" by (rule inv_page_drop_timer [OF inv])
  with st Fire show ?thesis by (auto simp: inv_page_restore split: if_splits)
next
  case (Tick n)
  then show "inv_page pg \<Longrightarrow> step pg e = Some pg' \<Longrightarrow> ?thesis"
    by (auto simp: inv_page_def)
next
  case (Insert p x)
  assume inv: "inv_page pg" and st: "step pg e = Some pg'"
  note wf = inv_page_wf [OF inv]
  from st Insert have g: "elem_in_doc (dom pg) p" "fresh_tree (dom pg) x" by (simp_all split: if_splits)
  then obtain pn where pn: "lookup (dom pg) p = Some pn" "is_elem pn"
    by (auto simp: elem_in_doc_def split: option.splits)
  have "inv_page (pg\<lparr>dom := insert_node (dom pg) p x\<rparr>)"
    using g(2) by (intro inv_page_keeps [OF inv] wf_insert_node [OF wf pn] keeps_insert_node [OF wf pn])
                  (simp_all add: fresh_tree_def)
  with st Insert g show ?thesis by (auto simp: insert_tree_def)
next
  case (Remove i)
  assume inv: "inv_page pg" and st: "step pg e = Some pg'"
  note wf = inv_page_wf [OF inv]
  have "inv_page (pg\<lparr>dom := remove_node (dom pg) i\<rparr>)"
    by (rule inv_page_keeps [OF inv wf_remove_node [OF wf] keeps_remove_node [OF wf]])
  with st Remove show ?thesis by (simp split: if_splits)
next
  case (Reinsert p r)
  assume inv: "inv_page pg" and st: "step pg e = Some pg'"
  note wf = inv_page_wf [OF inv]
  from st Reinsert obtain x where x: "find (\<lambda>n. nid n = r) (detached (dom pg)) = Some x"
    and g: "elem_in_doc (dom pg) p" and pg': "pg' = reinsert_tree pg p x"
    by (auto split: option.splits if_splits)
  from x have xd: "x \<in> set (detached (dom pg))" by (simp add: find_SomeD)
  from g obtain pn where pn: "in_doc (dom pg) p" "lookup (dom pg) p = Some pn" "is_elem pn"
    by (auto simp: elem_in_doc_def split: option.splits)
  have "inv_page (pg\<lparr>dom := reinsert_node (dom pg) p x\<rparr>)"
    by (rule inv_page_keeps [OF inv wf_reinsert_node [OF wf xd pn] keeps_reinsert_node [OF wf xd pn]])
  with pg' show ?thesis by (auto simp: reinsert_tree_def)
next
  case Deliver
  assume inv: "inv_page pg" and st: "step pg e = Some pg'"
  have "inv_page (pg\<lparr>records := []\<rparr>)" using inv by (simp add: inv_page_def)
  with st Deliver show ?thesis by (auto simp: inv_page_on_mutations split: if_splits)
qed

lemma reachable_inv_page: "reachable c pg \<Longrightarrow> inv_page pg"
proof (induction rule: reachable.induct)
  case (boot d)
  then show ?case by (rule inv_page_boot)
next
  case (step pg e pg')
  from step.IH step.hyps(2) show ?case by (rule inv_page_step)
qed

end
