(* ===== verification/Behaviour.thy ===== *)
theory Behaviour
  imports Invariants
begin

text \<open>
  What each continuation of the copy listener does to the page: after a fulfilled write
  the label reads ``Copied'', the button carries the class \<open>copied\<close> and a restore timer
  is armed; the timer's callback writes the remembered text back (or ``Copy'' when it
  was empty) and takes the class away; after a rejected write the hint stands right
  after the label and nothing else of the button changes. None of them touches a subtree
  that holds neither the button nor its label. The start-up scan and the observer
  register exactly the listeners of the specification \<open>new_listener\<close>, read off the DOM
  before the loop, and every pending timer stays due within \<open>DELAY\<close> (\<open>due_bound\<close>).
  The lemmas are stated under the page invariant of \<open>Invariants\<close>, so they hold in
  every reachable page.
\<close>

section \<open>Specifications\<close>

text \<open>
  What the start-up scan and the observer register for a node: the listener its two
  queries determine, if both find something.
\<close>

definition new_listener :: "dom \<Rightarrow> node_id \<Rightarrow> (node_id \<times> listener) list" where
  "new_listener d n =
     (case (query_in d COPY_BTN n, query_in d CODE_EL n) of
        (Some b, Some c) \<Rightarrow> [(b, Copy_listener b c)]
      | _ \<Rightarrow> [])"

text \<open>Every pending timer is due at most \<open>DELAY\<close> after the current time.\<close>

definition due_bound :: "page \<Rightarrow> bool" where
  "due_bound pg \<longleftrightarrow> list_all (\<lambda>t. due t \<le> now pg + DELAY) (timers pg)"

section \<open>Facts the three continuations share\<close>

lemma page_set_text_dom [simp]: "dom (page_set_text pg i s) = set_text_content (dom pg) i s"
  and page_set_text_fields [simp]:
  "timers (page_set_text pg i s) = timers pg" "writes (page_set_text pg i s) = writes pg"
  "listeners (page_set_text pg i s) = listeners pg" "clipboard (page_set_text pg i s) = clipboard pg"
  "now (page_set_text pg i s) = now pg"
  by (simp_all add: page_set_text_def Let_def)

lemma query_selector_Text [simp]: "query_selector s (Text i t) = None"
  by (simp add: query_selector_def)

text \<open>The label a query finds inside the button: an element other than the button.\<close>

lemma label_found:
  assumes "wf_dom d" and "query_in d s b = Some l"
  obtains bn ln where "lookup d b = Some bn" "is_elem bn" "lookup d l = Some ln" "is_elem ln"
    "b \<notin> set (ids ln)" "l \<noteq> b"
proof -
  obtain bn where bn: "lookup d b = Some bn" "query_selector s bn = Some l"
    using assms(2) by (auto simp: query_in_def split: option.splits)
  then have "is_elem bn" by (cases bn) simp_all
  moreover obtain ln where "lookup d l = Some ln" "is_elem ln" "b \<notin> set (ids ln)"
    using query_in_found [OF assms] by blast
  moreover then have "l \<noteq> b" using lookup_nid nid_in_ids by metis
  ultimately show ?thesis using that bn(1) by blast
qed

text \<open>
  Writing text into the label and then changing the button's classes: the label keeps
  the text, since the button is not inside the label's new subtree.
\<close>

lemma text_after_class_op:
  assumes wf: "wf_dom d" and l: "lookup d l = Some ln"
    and b: "b \<in> set (dom_ids d)" "l \<noteq> b"
  shows "text_of (class_add (set_text_content d l s) b c) l = s"
    and "text_of (class_remove (set_text_content d l s) b c) l = s"
proof -
  obtain ln' where ln': "lookup (set_text_content d l s) l = Some ln'" "text_content ln' = s"
      "set (ids ln') \<subseteq> {l, next_id d}"
    using set_text_content_self [OF wf l] by blast
  have "b < next_id d" using wf b(1) by (auto simp: wf_dom_def list_all_iff)
  then have "b \<notin> set (ids ln')" using ln'(3) b(2) by auto
  note keep = lookup_class_keep [OF wf_set_text_content [OF wf] ln'(1) this]
  show "text_of (class_add (set_text_content d l s) b c) l = s"
    using keep(1) ln'(2) by (simp add: text_of_def)
  show "text_of (class_remove (set_text_content d l s) b c) l = s"
    using keep(2) ln'(2) by (simp add: text_of_def)
qed

lemma has_class_set_text:
  assumes "wf_dom d" and "lookup d l = Some ln" and "is_elem ln" and "b \<in> set (dom_ids d)"
  shows "has_class (set_text_content d l s) b c = has_class d b c"
  by (rule has_class_header [OF header_set_text_content [OF assms]])

section \<open>The continuation after a fulfilled write\<close>

lemma copied_effect:
  assumes inv: "inv_page pg" and q: "query_in (dom pg) COPY_LABEL b = Some l"
  shows "text_of (dom (copied pg b)) l = ''Copied''"
    and "has_class (dom (copied pg b)) b ''copied''"
    and "timers (copied pg b) = timers pg @ [Restore (now pg + DELAY) l b (text_of (dom pg) l)]"
    and "writes (copied pg b) = writes pg \<and> listeners (copied pg b) = listeners pg
         \<and> clipboard (copied pg b) = clipboard pg"
proof -
  have wf: "wf_dom (dom pg)" by (rule inv_page_wf [OF inv])
  obtain bn ln where bn: "lookup (dom pg) b = Some bn" "is_elem bn"
    and ln: "lookup (dom pg) l = Some ln" "is_elem ln" and lb: "l \<noteq> b"
    using label_found [OF wf q] by blast
  have b: "b \<in> set (dom_ids (dom pg))" by (rule lookup_in_ids [OF bn(1)])
  let ?d1 = "set_text_content (dom pg) l ''Copied''"
  have d: "dom (copied pg b) = class_add ?d1 b ''copied''"
    using q by (simp add: copied_def Let_def)
  show "text_of (dom (copied pg b)) l = ''Copied''"
    unfolding d by (rule text_after_class_op(1) [OF wf ln(1) b lb])
  have wf1: "wf_dom ?d1" by (rule wf_set_text_content [OF wf])
  obtain m where "lookup ?d1 b = Some m" "is_elem m"
    using lookup_header_elem [OF wf1 header_set_text_content [OF wf ln b] bn] by blast
  then show "has_class (dom (copied pg b)) b ''copied''"
    unfolding d by (simp add: has_class_add [OF wf1])
  show "timers (copied pg b) = timers pg @ [Restore (now pg + DELAY) l b (text_of (dom pg) l)]"
    and "writes (copied pg b) = writes pg \<and> listeners (copied pg b) = listeners pg
         \<and> clipboard (copied pg b) = clipboard pg"
    using q by (simp_all add: copied_def Let_def)
qed

section \<open>The timer's callback\<close>

lemma restore_effect:
  assumes wf: "wf_dom (dom pg)" and ok: "timer_ok (dom pg) (Restore t0 l b old)"
  shows "text_of (dom (restore pg (Restore t0 l b old))) l = (if old = [] then ''Copy'' else old)"
    and "\<not> has_class (dom (restore pg (Restore t0 l b old))) b ''copied''"
    and "timers (restore pg (Restore t0 l b old)) = timers pg
         \<and> writes (restore pg (Restore t0 l b old)) = writes pg
         \<and> listeners (restore pg (Restore t0 l b old)) = listeners pg"
proof -
  from ok have ok: "l \<in> set (dom_ids (dom pg))" "b \<in> set (dom_ids (dom pg))" "l \<noteq> b" by simp_all
  obtain ln where ln: "lookup (dom pg) l = Some ln" using ok(1) lookup_None by fastforce
  let ?s = "if old = [] then ''Copy'' else old"
  let ?d1 = "set_text_content (dom pg) l ?s"
  have d: "dom (restore pg (Restore t0 l b old)) = class_remove ?d1 b ''copied''" by simp
  show "text_of (dom (restore pg (Restore t0 l b old))) l = ?s"
    unfolding d by (rule text_after_class_op(2) [OF wf ln ok(2,3)])
  have wf1: "wf_dom ?d1" by (rule wf_set_text_content [OF wf])
  have "b \<in> set (dom_ids ?d1)" by (rule keeps_ids [OF keeps_set_text_content [OF wf] ok(2)])
  then obtain m where "lookup ?d1 b = Some m" using lookup_None by fastforce
  then show "\<not> has_class (dom (restore pg (Restore t0 l b old))) b ''copied''"
    unfolding d by (simp add: has_class_remove [OF wf1])
  show "timers (restore pg (Restore t0 l b old)) = timers pg
         \<and> writes (restore pg (Restore t0 l b old)) = writes pg
         \<and> listeners (restore pg (Restore t0 l b old)) = listeners pg"
    by (simp add: Let_def)
qed

section \<open>The continuation after a rejected write\<close>

text \<open>The label found inside the button has a parent, and it sits in the parent's children.\<close>

lemma label_parent:
  assumes wf: "wf_dom d" and q: "query_in d s b = Some l"
  obtains p pn ln us vs where "parent_of d l = Some p" "lookup d p = Some pn"
    "lookup d l = Some ln" "children pn = us @ ln # vs" "l \<notin> nid ` set us" "p \<notin> set (ids ln)"
proof -
  have dist: "distinct (dom_ids d)" by (rule wf_dom_distinct [OF wf])
  obtain bn where bn: "lookup d b = Some bn" "query_selector s bn = Some l"
    using q by (auto simp: query_in_def split: option.splits)
  obtain ln where ln: "lookup d l = Some ln" "ln \<in> set (concat (map nodes (children bn)))"
    using query_selector_found [OF wf bn] by blast
  have bnd: "bn \<in> set (dom_nodes d)" using bn(1) dist by (simp add: lookup_Some)
  obtain p where p: "parent_of d l = Some p"
    using parent_of_below [OF dist bnd ln(2)] lookup_nid [OF ln(1)] by auto
  obtain pn where pn: "lookup d p = Some pn" "l \<in> nid ` set (children pn)"
    using parent_of_Some [OF dist p] by blast
  have pnd: "pn \<in> set (dom_nodes d)" using pn(1) dist by (simp add: lookup_Some)
  obtain c where c: "c \<in> set (children pn)" "nid c = l" using pn(2) by blast
  have "c \<in> set (dom_nodes d)" by (rule dom_nodes_closed [OF pnd nodes_child [OF c(1) self_in_nodes]])
  with c(2) dist have "lookup d l = Some c" by (simp add: lookup_Some)
  with ln(1) have "c = ln" by simp
  moreover have dpn: "distinct (ids pn)" by (rule distinct_ids_node [OF dist pnd])
  ultimately obtain us vs where "children pn = us @ ln # vs" "l \<notin> nid ` set us"
    using split_children [OF _ c(1)] c(2) by blast
  moreover have "p \<notin> set (ids ln)"
  proof -
    have "ln \<in> set (concat (map nodes (children pn)))"
      using c(1) unfolding \<open>c = ln\<close> by (auto intro!: bexI [of _ ln])
    then show ?thesis using ancestor_not_below [OF dpn] lookup_nid [OF pn(1)] by auto
  qed
  ultimately show ?thesis using that p pn(1) ln(1) by blast
qed

lemma copy_failed_effect:
  assumes inv: "inv_page pg" and q: "query_in (dom pg) COPY_LABEL b = Some l"
  shows "text_of (dom (copy_failed pg b)) l = text_of (dom pg) l"
    and "has_class (dom (copy_failed pg b)) b c = has_class (dom pg) b c"
    and "\<exists>p pn us ln vs. lookup (dom pg) p = Some pn \<and> children pn = us @ ln # vs \<and> nid ln = l
           \<and> lookup (dom (copy_failed pg b)) p
               = Some (with_children pn (us @ ln # Text (next_id (dom pg)) '' (press Cmd/Ctrl+C)'' # vs))"
    and "timers (copy_failed pg b) = timers pg \<and> writes (copy_failed pg b) = writes pg
         \<and> listeners (copy_failed pg b) = listeners pg \<and> clipboard (copy_failed pg b) = clipboard pg"
proof -
  have wf: "wf_dom (dom pg)" by (rule inv_page_wf [OF inv])
  obtain p pn ln us vs where p: "parent_of (dom pg) l = Some p" "lookup (dom pg) p = Some pn"
    and ln: "lookup (dom pg) l = Some ln" and sp: "children pn = us @ ln # vs" "l \<notin> nid ` set us"
    and pl: "p \<notin> set (ids ln)"
    using label_parent [OF wf q] by blast
  let ?hint = "'' (press Cmd/Ctrl+C)''"
  have d: "dom (copy_failed pg b) = insert_adjacent_text_afterend (dom pg) l ?hint"
    using q p(1) by (simp add: copy_failed_def page_insert_text_after_def Let_def)
  show "text_of (dom (copy_failed pg b)) l = text_of (dom pg) l"
    using insert_adjacent_text_keep [OF wf p ln pl, of ?hint] ln by (simp add: d text_of_def)
  obtain bn where "lookup (dom pg) b = Some bn" using q by (auto simp: query_in_def split: option.splits)
  then show "has_class (dom (copy_failed pg b)) b c = has_class (dom pg) b c"
    unfolding d by (intro has_class_header header_insert_adjacent_text [OF wf] lookup_in_ids)
  have "nid ln = l" by (rule lookup_nid [OF ln])
  moreover have "lookup (dom (copy_failed pg b)) p
      = Some (with_children pn (us @ ln # Text (next_id (dom pg)) ?hint # vs))"
    using insert_adjacent_text_parent [OF wf p, of ?hint] sp ins_after_split [OF sp(2) lookup_nid [OF ln]]
    by (simp add: d)
  ultimately show "\<exists>p pn us ln vs. lookup (dom pg) p = Some pn \<and> children pn = us @ ln # vs \<and> nid ln = l
           \<and> lookup (dom (copy_failed pg b)) p
               = Some (with_children pn (us @ ln # Text (next_id (dom pg)) ?hint # vs))"
    using p(2) sp(1) by blast
  show "timers (copy_failed pg b) = timers pg \<and> writes (copy_failed pg b) = writes pg
         \<and> listeners (copy_failed pg b) = listeners pg \<and> clipboard (copy_failed pg b) = clipboard pg"
    using q p(1) by (simp add: copy_failed_def page_insert_text_after_def Let_def)
qed

section \<open>The feedback stays inside its own button\<close>

text \<open>
  Writing the label and toggling the button's class keep every subtree that holds
  neither of them: another block's button, label and code element are untouched.
\<close>

lemma label_cycle_keep:
  assumes "wf_dom d" and "lookup d x = Some xn" and "l \<notin> set (ids xn)" and "b \<notin> set (ids xn)"
  shows "lookup (class_add (set_text_content d l s) b c) x = Some xn"
    and "lookup (class_remove (set_text_content d l s) b c) x = Some xn"
  using lookup_class_keep [OF wf_set_text_content [OF assms(1)] lookup_set_text_content_keep [OF assms(1-3)]
      assms(4)]
  by blast+

lemma copied_keep:
  assumes "wf_dom (dom pg)" and "query_in (dom pg) COPY_LABEL b = Some l"
    and "lookup (dom pg) x = Some xn" and "l \<notin> set (ids xn)" and "b \<notin> set (ids xn)"
  shows "lookup (dom (copied pg b)) x = Some xn"
  using label_cycle_keep(1) [OF assms(1,3-5)] assms(2) by (simp add: copied_def Let_def)

lemma restore_keep:
  assumes "wf_dom (dom pg)" and "lookup (dom pg) x = Some xn" and "l \<notin> set (ids xn)" and "b \<notin> set (ids xn)"
  shows "lookup (dom (restore pg (Restore t0 l b old))) x = Some xn"
  using label_cycle_keep(2) [OF assms] by (simp add: Let_def)

section \<open>What the start-up scan and the observer register\<close>

text \<open>
  The specification of both loops: every node of the list that passes the guard gets the
  listener its queries determine, read off the DOM as it was before the loop. This holds
  because \<open>enhance\<close> changes an attribute only, and queries never read attributes.
\<close>

lemma query_in_skel:
  assumes "dom_skel d' = dom_skel d"
  shows "query_in d' s i = query_in d s i"
proof -
  have "query_in e s i = (case map_option skel (lookup e i) of None \<Rightarrow> None | Some n \<Rightarrow> query_selector s n)"
    for e by (cases "lookup e i") (simp_all add: query_in_def)
  then show ?thesis using lookup_skel_eq [OF assms] by metis
qed

lemma is_block_skel:
  assumes "dom_skel d' = dom_skel d"
  shows "is_block d' n = is_block d n"
proof -
  have "is_block e n = (case map_option skel (lookup e n) of None \<Rightarrow> False
      | Some m \<Rightarrow> is_elem m \<and> sel_matches CODE_SELECTOR None m)" for e
    by (cases "lookup e n") (simp_all add: is_block_def)
  then show ?thesis using lookup_skel_eq [OF assms] by metis
qed

lemma new_listener_skel:
  assumes "dom_skel d' = dom_skel d"
  shows "new_listener d' = new_listener d"
  unfolding new_listener_def query_in_skel [OF assms] ..

lemma enhance_skel [simp]: "dom_skel (dom (enhance pg n)) = dom_skel (dom pg)"
  by (simp add: enhance_def split: option.split)

lemma listeners_enhance: "listeners (enhance pg n) = listeners pg @ new_listener (dom pg) n"
  by (simp add: enhance_def new_listener_def split: option.split)

lemma fold_enhance:
  "dom_skel (dom (fold (\<lambda>n pg. enhance pg n) ns pg)) = dom_skel (dom pg)
   \<and> listeners (fold (\<lambda>n pg. enhance pg n) ns pg)
       = listeners pg @ concat (map (new_listener (dom pg)) ns)"
proof (induction ns arbitrary: pg)
  case Nil
  then show ?case by simp
next
  case (Cons n ns)
  have "new_listener (dom (enhance pg n)) = new_listener (dom pg)"
    by (rule new_listener_skel [OF enhance_skel])
  with Cons.IH [of "enhance pg n"] show ?case by (simp add: listeners_enhance)
qed

lemma fold_enhance_blocks:
  "dom_skel (dom (fold (\<lambda>n pg. if is_block (dom pg) n then enhance pg n else pg) ns pg)) = dom_skel (dom pg)
   \<and> listeners (fold (\<lambda>n pg. if is_block (dom pg) n then enhance pg n else pg) ns pg)
       = listeners pg @ concat (map (new_listener (dom pg)) (filter (is_block (dom pg)) ns))"
proof (induction ns arbitrary: pg)
  case Nil
  then show ?case by simp
next
  case (Cons n ns)
  have "new_listener (dom (enhance pg n)) = new_listener (dom pg)"
    by (rule new_listener_skel [OF enhance_skel])
  moreover have "is_block (dom (enhance pg n)) = is_block (dom pg)"
    using is_block_skel [OF enhance_skel] by (simp add: fun_eq_iff)
  ultimately show ?case using Cons.IH [of "enhance pg n"] Cons.IH [of pg]
    by (simp add: listeners_enhance)
qed

section \<open>Timers are due within the delay\<close>

text \<open>
  Only the success continuation arms a timer, always due \<open>DELAY\<close> after the current
  time; the clock only moves forward. So every pending timer is due at most \<open>DELAY\<close>
  after the current time, and after waiting \<open>DELAY\<close> all of them can fire.
\<close>

lemma fold_clock:
  assumes "\<And>x pg. timers (f x pg) = timers pg \<and> now (f x pg) = now pg"
  shows "timers (fold f xs pg) = timers pg \<and> now (fold f xs pg) = now pg"
proof (induction xs arbitrary: pg)
  case Nil
  then show ?case by simp
next
  case (Cons x xs)
  show ?case using Cons.IH [of "f x pg"] assms [of x pg] by simp
qed

lemma clock_enhance: "timers (enhance pg n) = timers pg \<and> now (enhance pg n) = now pg"
  by (simp add: enhance_def split: option.split)

lemma clock_on_mutations: "timers (on_mutations pg ms) = timers pg \<and> now (on_mutations pg ms) = now pg"
  unfolding on_mutations_def by (intro fold_clock) (simp add: clock_enhance)

lemma clock_copy_failed: "timers (copy_failed pg b) = timers pg \<and> now (copy_failed pg b) = now pg"
  by (simp add: copy_failed_def page_insert_text_after_def Let_def split: option.split)

lemma clock_restore: "timers (restore pg t) = timers pg \<and> now (restore pg t) = now pg"
  by (cases t) (simp add: Let_def)

lemma clock_copied:
  "now (copied pg b) = now pg \<and> (timers (copied pg b) = timers pg
     \<or> (\<exists>l old. timers (copied pg b) = timers pg @ [Restore (now pg + DELAY) l b old]))"
  by (simp add: copied_def Let_def split: option.split)

lemma due_bound_step:
  assumes "due_bound pg" and "step pg e = Some pg'"
  shows "due_bound pg'"
proof (cases e)
  case (Resolve k)
  let ?pg = "pg\<lparr>writes := drop_nth k (writes pg), clipboard := snd (writes pg ! k)\<rparr>"
  have "pg' = copied ?pg (fst (writes pg ! k))" using assms(2) Resolve by (simp split: if_splits)
  with clock_copied [of ?pg "fst (writes pg ! k)"] assms(1) show ?thesis
    by (auto simp: due_bound_def)
next
  case (Fire k)
  then have "pg' = restore (pg\<lparr>timers := drop_nth k (timers pg)\<rparr>) (timers pg ! k)"
    using assms(2) by (simp split: if_splits)
  with clock_restore assms(1) set_drop_nth_subset [of k "timers pg"] show ?thesis
    by (auto simp: due_bound_def list_all_iff)
next
  case (Tick n)
  then have pg': "pg' = pg\<lparr>now := now pg + n\<rparr>" using assms(2) by simp
  show ?thesis unfolding due_bound_def list_all_iff
  proof
    fix t assume "t \<in> set (timers pg')"
    with assms(1) pg' have "due t \<le> now pg + DELAY" by (simp add: due_bound_def list_all_iff)
    with pg' show "due t \<le> now pg' + DELAY" by simp
  qed
qed (use assms in \<open>auto simp: due_bound_def list_all_iff click_eq clock_copy_failed clock_on_mutations
      insert_tree_def reinsert_tree_def split: if_splits option.splits\<close>)

lemma reachable_due_bound: "reachable c pg \<Longrightarrow> due_bound pg"
proof (induction rule: reachable.induct)
  case (boot d)
  have "timers (initial_scan (page0 d)) = timers (page0 d)"
    unfolding initial_scan_def by (intro conjunct1 [OF fold_clock]) (simp add: clock_enhance)
  then show ?case by (simp add: due_bound_def boot_def start_observing_def page0_def)
next
  case (step pg e pg')
  show ?case by (rule due_bound_step [OF step.IH step.hyps(2)])
qed

text \<open>Due timers fire one after the other, each from the front of the queue.\<close>

lemma fire_all:
  "list_all (\<lambda>t. due t \<le> now pg) (timers pg)
   \<Longrightarrow> \<exists>pg'. run pg (replicate (length (timers pg)) (Fire 0)) = Some pg' \<and> timers pg' = []"
proof (induction "timers pg" arbitrary: pg)
  case Nil
  then show ?case by simp
next
  case (Cons t ts)
  let ?pg = "restore (pg\<lparr>timers := ts\<rparr>) t"
  have "step pg (Fire 0) = Some ?pg" using Cons.prems Cons.hyps(2) [symmetric] by simp
  moreover have "timers ?pg = ts" "now ?pg = now pg" using clock_restore [of "pg\<lparr>timers := ts\<rparr>" t] by simp_all
  moreover from Cons.prems Cons.hyps(2) have "list_all (\<lambda>t. due t \<le> now pg) ts" by (metis list.pred_inject(2))
  ultimately show ?case using Cons.hyps(1) [of ?pg] Cons.hyps(2) [symmetric] by simp
qed

section \<open>Re-inserting a removed tree\<close>

text \<open>
  Another script re-inserts a detached tree: the tree comes back unchanged under its
  root's id, the script's listeners stay, and when the observer is observing, the
  re-inserted root is queued as an added node.
\<close>

lemma reinsert_step:
  assumes inv: "inv_page pg" and st: "step pg (Reinsert p r) = Some pg1"
  obtains x where "lookup (dom pg) r = Some x" "lookup (dom pg1) r = Some x"
    "listeners pg1 = listeners pg" "observing pg \<Longrightarrow> records pg1 = records pg @ [[r]]"
proof -
  note wf = inv_page_wf [OF inv]
  from st obtain x where f: "find (\<lambda>n. nid n = r) (detached (dom pg)) = Some x"
    and g: "elem_in_doc (dom pg) p" and pg1: "pg1 = reinsert_tree pg p x"
    by (auto split: option.splits if_splits)
  from find_SomeD [OF f] have xd: "x \<in> set (detached (dom pg))" and r: "nid x = r" by simp_all
  from g obtain pn where pn: "in_doc (dom pg) p" "lookup (dom pg) p = Some pn" "is_elem pn"
    by (auto simp: elem_in_doc_def split: option.splits)
  have "x \<in> set (dom_nodes (dom pg))"
    using xd self_in_nodes [of x] unfolding dom_nodes_def forest_def by (auto intro!: bexI [of _ x])
  then have "lookup (dom pg) r = Some x" using r wf_dom_distinct [OF wf] by (simp add: lookup_Some)
  moreover have "lookup (dom pg1) r = Some x"
    using reinsert_node_root(1) [OF wf xd pn] r pg1 by (simp add: reinsert_tree_def)
  moreover have "listeners pg1 = listeners pg" using pg1 by (simp add: reinsert_tree_def)
  moreover have "observing pg \<Longrightarrow> records pg1 = records pg @ [[r]]"
    using reinsert_node_root(2) [OF wf xd pn] r pg1
    by (simp add: reinsert_tree_def queue_record_def)
  ultimately show ?thesis using that by blast
qed

lemma same_lookup_queries:
  assumes "lookup d' r = lookup d r"
  shows "query_in d' s r = query_in d s r" and "is_block d' r = is_block d r"
  using assms by (simp_all add: query_in_def is_block_def)

end
