(* ===== verification/Spec2Isabelle.thy ===== *)
theory Spec2Isabelle
  imports Behaviour
begin

text \<open>
  \<^bold>\<open>copycode.js, verified.\<close>
  The repository's one program, src/themes/plaintech/static/js/copycode.js, is a
  progressive-enhancement script: an immediately invoked function that, when the browser
  has the Clipboard API, finds every \<open>.code-block\<close>, registers on its \<open>.copy-btn\<close> a
  click listener that copies the text of its \<open>pre > code\<close> element, shows
  \<open>Copied\<close> on the button's \<open>.copy-label\<close> for 1600 ms (or a keyboard hint when the
  write is rejected), and keeps enhancing blocks that other scripts insert, through a
  \<open>MutationObserver\<close> on the whole document.

  \<^bold>\<open>Theories.\<close>
  \<^item> \<open>Prelude\<close>: base type names and generic list lemmas (search by key, splitting at
    a key, deleting by position, distinctness through multisets).
  \<^item> \<open>Dom\<close>: the browser DOM the script calls (modelled from the DOM standard, not
    repository code): element and text nodes with ids; \<open>querySelector\<close>,
    \<open>querySelectorAll\<close>, \<open>textContent\<close>, \<open>setAttribute\<close>, \<open>classList\<close>,
    \<open>insertAdjacentText\<close>, \<open>appendChild\<close>, \<open>removeChild\<close>. Removed nodes live on
    as detached trees. Well-formedness \<open>wf_dom\<close> (distinct ids, all below the next fresh
    id, an element as root) is kept by every operation.
  \<^item> \<open>Enhancer\<close>: the script. The record \<open>page\<close> is the state it touches (DOM,
    registered listeners, pending clipboard writes, pending timers, clipboard, clock,
    observer flag and queue). \<open>enhance\<close>, \<open>start_copy\<close> (the listener up to its
    \<open>await\<close>), \<open>copied\<close> and \<open>copy_failed\<close> (the two continuations), \<open>restore\<close>
    (the timer callback), \<open>on_mutations\<close> (the observer callback) and \<open>boot\<close> (the
    function's body) follow the source line by line.
  \<^item> \<open>Page\<close>: the event loop: \<open>step\<close> over the events click, resolve and reject of a
    pending write, timer firing, clock ticks, insertions and removals by other scripts,
    and delivery of mutation records; \<open>run\<close> over event lists; \<open>reachable\<close> pages
    from start-up. Any order of enabled events is allowed, a superset of the browser's.
  \<^item> \<open>Invariants\<close>: the page invariant \<open>inv_page\<close> (well-formed DOM; every listener's
    button and code element, every pending write's button, every timer's label and
    button are nodes, the label distinct from its button; every enhanced button has
    \<open>aria-live="polite"\<close>), proved for every operation and, by rule induction on
    \<open>reachable\<close>, for every reachable page. The frame relation \<open>keeps\<close> (ids only grow,
    attributes of old nodes stay) carries the invariant across the DOM operations.
  \<^item> \<open>Behaviour\<close>: the effect of each continuation of the listener on the label, the
    button's classes and the timers (\<open>copied_effect\<close>, \<open>restore_effect\<close>,
    \<open>copy_failed_effect\<close>), the locality of the feedback (\<open>copied_keep\<close>,
    \<open>restore_keep\<close>), and the specification \<open>new_listener\<close> of what the scan and the
    observer register, with the attribute-blind skeleton \<open>skel\<close> of \<open>Dom\<close> as the
    abstraction under which \<open>enhance\<close> changes nothing a query reads.
  \<^item> this theory: the properties of the program as a whole, C1 to C11:
    start-up without the Clipboard API is inert (C1); a copy that resolves while the
    label shows Copied arms a timer that restores Copied and is due after all pending
    ones, so the label sticks at Copied (C2); enhanced buttons are live regions (C3); the
    success, timer and failure paths do what the spec says (C4 to C6), only inside their
    own button (C7); the scan and the observer register exactly the listeners of
    \<open>new_listener\<close>, the observer only for added nodes themselves (C8, C9); a re-inserted
    block is enhanced again (C10); every pending restore is due within 1600 ms and can
    run (C11, from the invariant \<open>due_bound\<close> of \<open>Behaviour\<close>). The concrete run
    \<open>double_copy_label_stuck\<close> shows the race of C2 on the sample page.

  \<^bold>\<open>Bounds.\<close> Time is an unbounded \<open>nat\<close> of milliseconds: the script only adds
  1600 to the clock, far from the range where JS numbers lose precision. No loop of the
  script can fail to end (all loops run over finite lists), so no fuel is needed; the
  concrete runs of the witnesses are evaluated by the simplifier (\<open>code_simp\<close>).

  \<^bold>\<open>Not modelled.\<close> Rendering (innerText is taken to be textContent, which it is for
  the text of a \<open>pre\<close>), CSS, the accessibility tree, the clipboard permission
  model (a write may resolve or reject at any time), and mutation records without added
  nodes (the callback ignores them).
\<close>

section \<open>A sample page\<close>

text \<open>
  One code block as the site's templates render it: the block, its button with a label,
  and the code in a \<open>pre\<close>. Ids: 0 html, 1 block, 2 button, 3 label, 4 label text,
  5 pre, 6 code, 7 code text.
\<close>

definition demo_doc :: dom where
  "demo_doc =
     \<lparr>doc = Elem 0 ''html'' [] []
        [Elem 1 ''div'' [''code-block''] []
          [Elem 2 ''button'' [''copy-btn''] [] [Elem 3 ''span'' [''copy-label''] [] [Text 4 ''Copy'']],
           Elem 5 ''pre'' [] [] [Elem 6 ''code'' [] [] [Text 7 ''ls -la'']]]],
      detached = [], next_id = 8\<rparr>"

text \<open>A page with two blocks: the sample block and a second one below it.\<close>

definition demo2_doc :: dom where
  "demo2_doc =
     \<lparr>doc = Elem 0 ''html'' [] []
        [Elem 1 ''div'' [''code-block''] []
          [Elem 2 ''button'' [''copy-btn''] [] [Elem 3 ''span'' [''copy-label''] [] [Text 4 ''Copy'']],
           Elem 5 ''pre'' [] [] [Elem 6 ''code'' [] [] [Text 7 ''ls -la'']]],
         Elem 8 ''div'' [''code-block''] []
          [Elem 9 ''button'' [''copy-btn''] [] [Elem 10 ''span'' [''copy-label''] [] [Text 11 ''Copy'']],
           Elem 12 ''pre'' [] [] [Elem 13 ''code'' [] [] [Text 14 ''pwd'']]]],
      detached = [], next_id = 15\<rparr>"

lemma demo_reachable: "reachable True (boot True demo_doc)"
proof -
  have "wf_dom demo_doc" by code_simp
  then show ?thesis by (rule reachable.boot)
qed

section \<open>Without the Clipboard API nothing happens\<close>

text \<open>
  C1. When the browser has no Clipboard API, the script returns before doing anything: in
  every page reachable from start-up there is no listener, no pending write or timer, no
  queued mutation record, the observer is not observing, and the clipboard is untouched,
  whatever the user clicks and whatever other scripts insert.
\<close>

theorem no_clipboard_inert:
  "reachable False pg \<Longrightarrow>
     listeners pg = [] \<and> writes pg = [] \<and> timers pg = [] \<and> records pg = []
     \<and> \<not> observing pg \<and> clipboard pg = []"
proof (induction rule: reachable.induct)
  case (boot d)
  then show ?case by (simp add: boot_def page0_def)
next
  case (step pg e pg')
  then show ?case
    by (cases e)
       (auto simp: click_eq insert_tree_def reinsert_tree_def queue_record_def
             split: if_splits option.splits)
qed

theorem no_clipboard_inert_witness:
  "listeners (boot False demo_doc) = [] \<and> \<not> observing (boot False demo_doc)"
proof -
  have "wf_dom demo_doc" by code_simp
  then have "reachable False (boot False demo_doc)" by (rule reachable.boot)
  then show ?thesis using no_clipboard_inert by blast
qed

section \<open>Overlapping copies leave the label at Copied\<close>



text \<open>
  The concrete run on the sample page: click, resolve, click the label again, resolve,
  1600 ms, both timers. The first timer restores \<open>Copy\<close>, the second puts \<open>Copied\<close>
  back, and with no timer left the label shows \<open>Copied\<close> for good.
\<close>

lemma double_copy_label_stuck:
  "(case run (boot True demo_doc)
          [Click 4, Resolve 0, Click 3, Resolve 0, Tick 1600, Fire 0, Fire 0] of
      None \<Rightarrow> False
    | Some pg \<Rightarrow> text_of (dom pg) 3 = ''Copied'' \<and> timers pg = [] \<and> writes pg = [])"
  by code_simp

section \<open>Accessibility: every enhanced button is a polite live region\<close>

text \<open>
  C3. Every button that carries a copy listener in a reachable page has the attribute
  \<open>aria-live="polite"\<close>, so that screen readers announce the label's change to
  \<open>Copied\<close>: \<open>enhance\<close> sets it before registering the listener, and no later
  operation of the script or of the page's other scripts removes or changes it.
\<close>

theorem enhanced_button_aria_live:
  assumes "reachable c pg" and "(b, l) \<in> set (listeners pg)"
  shows "\<exists>bn. lookup (dom pg) b = Some bn \<and> map_of (attrs bn) ''aria-live'' = Some ''polite''"
proof -
  have "listener_ok (dom pg) (b, l)"
    using reachable_inv_page [OF assms(1)] assms(2) by (auto simp: inv_page_def list_all_iff)
  then have "aria_live (dom pg) b" by (cases l) simp
  then show ?thesis
    by (auto simp: aria_live_def attrs_at_def header_lookup split: option.splits)
qed

theorem enhanced_button_aria_live_witness:
  "(2, Copy_listener 2 6) \<in> set (listeners (boot True demo_doc))
   \<and> (\<exists>bn. lookup (dom (boot True demo_doc)) 2 = Some bn
          \<and> map_of (attrs bn) ''aria-live'' = Some ''polite'')"
proof -
  have m: "(2, Copy_listener 2 6) \<in> set (listeners (boot True demo_doc))" by code_simp
  show ?thesis using m enhanced_button_aria_live [OF demo_reachable m] by blast
qed

section \<open>The copy feedback cycle, step by step\<close>

text \<open>
  C4. When a pending clipboard write of a reachable page resolves, the clipboard holds the
  code text the click read, and if the button has a label, the label reads \<open>Copied\<close>, the
  button carries the class \<open>copied\<close>, and one restore timer is armed, due 1600 ms after
  the current time, remembering the label's text from before.
\<close>

theorem resolve_copied:
  assumes "reachable c pg" and "step pg (Resolve k) = Some pg'" and "writes pg ! k = (b, txt)"
    and "query_in (dom pg) COPY_LABEL b = Some l"
  shows "clipboard pg' = txt \<and> text_of (dom pg') l = ''Copied'' \<and> has_class (dom pg') b ''copied''
    \<and> timers pg' = timers pg @ [Restore (now pg + DELAY) l b (text_of (dom pg) l)]"
proof -
  let ?pg = "pg\<lparr>writes := drop_nth k (writes pg), clipboard := txt\<rparr>"
  have inv: "inv_page ?pg" by (rule inv_page_drop_write [OF reachable_inv_page [OF assms(1)]])
  have pg': "pg' = copied ?pg b" using assms(2,3) by (simp split: if_splits)
  have q: "query_in (dom ?pg) COPY_LABEL b = Some l" using assms(4) by simp
  show ?thesis using copied_effect [OF inv q] by (simp add: pg')
qed

theorem resolve_copied_witness:
  "clipboard (the (step (the (run (boot True demo_doc) [Click 4])) (Resolve 0))) = ''ls -la''
   \<and> text_of (dom (the (step (the (run (boot True demo_doc) [Click 4])) (Resolve 0)))) 3 = ''Copied''
   \<and> has_class (dom (the (step (the (run (boot True demo_doc) [Click 4])) (Resolve 0)))) 2 ''copied''"
proof -
  let ?pg = "the (run (boot True demo_doc) [Click 4])"
  have r: "run (boot True demo_doc) [Click 4] = Some ?pg" by code_simp
  have st: "step ?pg (Resolve 0) = Some (the (step ?pg (Resolve 0)))" by code_simp
  have w: "writes ?pg ! 0 = (2, ''ls -la'')" by code_simp
  have q: "query_in (dom ?pg) COPY_LABEL 2 = Some 3" by code_simp
  show ?thesis using resolve_copied [OF run_reachable [OF demo_reachable r] st w q] by blast
qed

text \<open>
  C5. A restore timer fires only once it is due, never before: its callback runs at a time
  no earlier than the due time \<open>now + 1600\<close> fixed when it was armed (C4). It writes
  the remembered text back into the label, or \<open>Copy\<close> when the remembered text was
  empty, and the button no longer carries the class \<open>copied\<close>. The timer leaves the queue.
\<close>

theorem fire_restores:
  assumes "reachable c pg" and "step pg (Fire k) = Some pg'" and "timers pg ! k = Restore t l b old"
  shows "t \<le> now pg \<and> text_of (dom pg') l = (if old = [] then ''Copy'' else old)
    \<and> \<not> has_class (dom pg') b ''copied'' \<and> timers pg' = drop_nth k (timers pg)"
proof -
  have inv: "inv_page pg" by (rule reachable_inv_page [OF assms(1)])
  have k: "k < length (timers pg)" and due: "t \<le> now pg"
    using assms(2,3) by (simp_all split: if_splits)
  let ?pg = "pg\<lparr>timers := drop_nth k (timers pg)\<rparr>"
  have pg': "pg' = restore ?pg (Restore t l b old)" using assms(2,3) by (simp split: if_splits)
  have "timer_ok (dom pg) (Restore t l b old)"
    using inv nth_mem [OF k] assms(3) by (auto simp: inv_page_def list_all_iff)
  then have ok: "timer_ok (dom ?pg) (Restore t l b old)" by simp
  have wf: "wf_dom (dom ?pg)" using inv_page_wf [OF inv] by simp
  show ?thesis using restore_effect [OF wf ok] due by (simp add: pg')
qed

theorem fire_restores_witness:
  "text_of (dom (the (step (the (run (boot True demo_doc) [Click 4, Resolve 0, Tick 1600])) (Fire 0)))) 3
     = ''Copy''
   \<and> \<not> has_class (dom (the (step (the (run (boot True demo_doc) [Click 4, Resolve 0, Tick 1600])) (Fire 0))))
       2 ''copied''"
proof -
  let ?pg = "the (run (boot True demo_doc) [Click 4, Resolve 0, Tick 1600])"
  have r: "run (boot True demo_doc) [Click 4, Resolve 0, Tick 1600] = Some ?pg" by code_simp
  have st: "step ?pg (Fire 0) = Some (the (step ?pg (Fire 0)))" by code_simp
  have t: "timers ?pg ! 0 = Restore 1600 3 2 ''Copy''" by code_simp
  show ?thesis using fire_restores [OF run_reachable [OF demo_reachable r] st t] by simp
qed

text \<open>
  C6. When a pending clipboard write is rejected, the clipboard is untouched, the label
  keeps its text (it never reads \<open>Copied\<close> through this path) and the button's classes do
  not change; the hint \<open> (press Cmd/Ctrl+C)\<close> becomes a new text node right after the
  label among its parent's children.
\<close>

theorem reject_hint_after_label:
  assumes "reachable c pg" and "step pg (Reject k) = Some pg'" and "writes pg ! k = (b, txt)"
    and "query_in (dom pg) COPY_LABEL b = Some l"
  shows "clipboard pg' = clipboard pg \<and> text_of (dom pg') l = text_of (dom pg) l
    \<and> (\<forall>cl. has_class (dom pg') b cl = has_class (dom pg) b cl)
    \<and> (\<exists>p pn us ln vs. lookup (dom pg) p = Some pn \<and> children pn = us @ ln # vs \<and> nid ln = l
         \<and> lookup (dom pg') p
             = Some (with_children pn (us @ ln # Text (next_id (dom pg)) '' (press Cmd/Ctrl+C)'' # vs)))"
proof -
  let ?pg = "pg\<lparr>writes := drop_nth k (writes pg)\<rparr>"
  have inv: "inv_page ?pg"
    using inv_page_drop_write [OF reachable_inv_page [OF assms(1)], where k = k and cb = "clipboard pg"]
    by simp
  have pg': "pg' = copy_failed ?pg b" using assms(2,3) by (simp split: if_splits)
  have q: "query_in (dom ?pg) COPY_LABEL b = Some l" using assms(4) by simp
  note e = copy_failed_effect [OF inv q]
  show ?thesis using e(1,3,4) by (simp add: pg' e(2))
qed

theorem reject_hint_after_label_witness:
  "text_of (dom (the (step (the (run (boot True demo_doc) [Click 4])) (Reject 0)))) 3 = ''Copy''
   \<and> (\<exists>p pn us ln vs. lookup (dom (the (run (boot True demo_doc) [Click 4]))) p = Some pn
        \<and> children pn = us @ ln # vs \<and> nid ln = 3
        \<and> lookup (dom (the (step (the (run (boot True demo_doc) [Click 4])) (Reject 0)))) p
            = Some (with_children pn (us @ ln # Text 8 '' (press Cmd/Ctrl+C)'' # vs)))"
proof -
  let ?pg = "the (run (boot True demo_doc) [Click 4])"
  have r: "run (boot True demo_doc) [Click 4] = Some ?pg" by code_simp
  have st: "step ?pg (Reject 0) = Some (the (step ?pg (Reject 0)))" by code_simp
  have w: "writes ?pg ! 0 = (2, ''ls -la'')" by code_simp
  have q: "query_in (dom ?pg) COPY_LABEL 2 = Some 3" by code_simp
  have tx: "text_of (dom ?pg) 3 = ''Copy''" by code_simp
  have n: "next_id (dom ?pg) = 8" by code_simp
  show ?thesis using reject_hint_after_label [OF run_reachable [OF demo_reachable r] st w q] tx n
    by simp
qed

section \<open>Two blocks do not interfere\<close>

text \<open>
  C7. The feedback of one copy stays inside its own button: when a write resolves, and
  when a restore timer fires, every subtree of the page that holds neither that button
  nor its label is left exactly as it was. In particular another block's button, label
  and code element keep their text, classes and attributes.
\<close>

theorem feedback_local:
  assumes "reachable c pg" and "step pg e = Some pg'"
    and "(e = Resolve k \<and> writes pg ! k = (b, txt) \<and> query_in (dom pg) COPY_LABEL b = Some l)
         \<or> (e = Fire k \<and> timers pg ! k = Restore t l b old)"
    and "lookup (dom pg) x = Some xn" and "l \<notin> set (ids xn)" and "b \<notin> set (ids xn)"
  shows "lookup (dom pg') x = Some xn"
proof -
  have wf: "wf_dom (dom pg)" by (rule inv_page_wf [OF reachable_inv_page [OF assms(1)]])
  from assms(3) show ?thesis
  proof
    assume r: "e = Resolve k \<and> writes pg ! k = (b, txt) \<and> query_in (dom pg) COPY_LABEL b = Some l"
    let ?pg = "pg\<lparr>writes := drop_nth k (writes pg), clipboard := txt\<rparr>"
    have "pg' = copied ?pg b" using assms(2) r by (simp split: if_splits)
    moreover have "lookup (dom (copied ?pg b)) x = Some xn"
      using r by (intro copied_keep [where l = l]) (simp_all add: wf assms(4-6))
    ultimately show ?thesis by simp
  next
    assume f: "e = Fire k \<and> timers pg ! k = Restore t l b old"
    let ?pg = "pg\<lparr>timers := drop_nth k (timers pg)\<rparr>"
    have "pg' = restore ?pg (Restore t l b old)" using assms(2) f by (simp split: if_splits)
    moreover have "lookup (dom (restore ?pg (Restore t l b old))) x = Some xn"
      by (intro restore_keep [where l = l]) (simp_all add: wf assms(4-6))
    ultimately show ?thesis by simp
  qed
qed

theorem feedback_local_witness:
  "lookup (dom (the (step (the (run (boot True demo2_doc) [Click 4, Click 11])) (Resolve 0)))) 8
     = Some (Elem 8 ''div'' [''code-block''] []
          [Elem 9 ''button'' [''copy-btn''] [(''aria-live'', ''polite'')]
             [Elem 10 ''span'' [''copy-label''] [] [Text 11 ''Copy'']],
           Elem 12 ''pre'' [] [] [Elem 13 ''code'' [] [] [Text 14 ''pwd'']]])"
proof -
  let ?pg = "the (run (boot True demo2_doc) [Click 4, Click 11])"
  let ?xn = "Elem 8 ''div'' [''code-block''] []
          [Elem 9 ''button'' [''copy-btn''] [(''aria-live'', ''polite'')]
             [Elem 10 ''span'' [''copy-label''] [] [Text 11 ''Copy'']],
           Elem 12 ''pre'' [] [] [Elem 13 ''code'' [] [] [Text 14 ''pwd'']]]"
  have wf: "wf_dom demo2_doc" by code_simp
  have r: "run (boot True demo2_doc) [Click 4, Click 11] = Some ?pg" by code_simp
  have st: "step ?pg (Resolve 0) = Some (the (step ?pg (Resolve 0)))" by code_simp
  have w: "writes ?pg ! 0 = (2, ''ls -la'')" by code_simp
  have q: "query_in (dom ?pg) COPY_LABEL 2 = Some 3" by code_simp
  have x: "lookup (dom ?pg) 8 = Some ?xn" by code_simp
  have n: "(3::nat) \<notin> set (ids ?xn)" "(2::nat) \<notin> set (ids ?xn)" by (simp_all add: ids_def)
  show ?thesis
    using feedback_local [OF run_reachable [OF reachable.boot [OF wf] r] st, of 0 2 "''ls -la''" 3]
      w q x n by simp
qed

section \<open>What start-up and the observer register\<close>

text \<open>
  C8. The observer callback registers, in order, one listener for each added node that is
  itself a block with both a button and a code element, computed on the DOM as the
  callback found it; the descendants of added nodes are never looked at. The loops over
  the records and their added nodes, each of which changes the DOM, agree with this
  specification because \<open>enhance\<close> only sets an attribute and queries never read one.
\<close>

theorem observer_registers:
  "listeners (on_mutations pg ms)
     = listeners pg @ concat (map (new_listener (dom pg)) (filter (is_block (dom pg)) (concat ms)))"
  using conjunct2 [OF fold_enhance_blocks [of "concat ms" pg]]
  by (simp add: on_mutations_def fold_concat_nested)

text \<open>
  C9. The start-up scan registers, in document order, one listener for each block of the
  document that has both a button and a code element; other blocks are skipped.
\<close>

theorem scan_registers:
  "listeners (initial_scan pg)
     = listeners pg @ concat (map (new_listener (dom pg)) (query_selector_all CODE_SELECTOR None [doc (dom pg)]))"
  using conjunct2 [OF fold_enhance] by (simp add: initial_scan_def)

text \<open>
  C10. Nothing marks a block as enhanced. When another script re-inserts a removed block
  that was enhanced, the observer enhances it again on delivery: the button then carries
  the same copy listener twice, and each click on it starts two clipboard writes.
\<close>

theorem reinsert_enhances_again:
  assumes "reachable c pg" and "observing pg" and "(b, Copy_listener b cd) \<in> set (listeners pg)"
    and "is_block (dom pg) r" and "query_in (dom pg) COPY_BTN r = Some b"
    and "query_in (dom pg) CODE_EL r = Some cd" and "step pg (Reinsert p r) = Some pg1"
  shows "\<exists>pg2. step pg1 Deliver = Some pg2 \<and> 2 \<le> count (mset (listeners pg2)) (b, Copy_listener b cd)"
proof -
  obtain x where lk: "lookup (dom pg1) r = lookup (dom pg) r"
    and ls: "listeners pg1 = listeners pg" and rs: "records pg1 = records pg @ [[r]]"
    using reinsert_step [OF reachable_inv_page [OF assms(1)] assms(7)] assms(2) by metis
  have blk: "is_block (dom pg1) r" and
    nl: "new_listener (dom pg1) r = [(b, Copy_listener b cd)]"
    using same_lookup_queries [OF lk] assms(4-6) by (simp_all add: new_listener_def)
  let ?pg2 = "on_mutations (pg1\<lparr>records := []\<rparr>) (records pg1)"
  have st: "step pg1 Deliver = Some ?pg2" using rs by simp
  have "listeners ?pg2 = listeners pg
      @ concat (map (new_listener (dom pg1)) (filter (is_block (dom pg1)) (concat (records pg))))
      @ [(b, Copy_listener b cd)]"
    using conjunct2 [OF fold_enhance_blocks [of "concat (records pg1)" "pg1\<lparr>records := []\<rparr>"]] rs ls blk nl
    by (simp add: on_mutations_def fold_concat_nested)
  moreover have "0 < count (mset (listeners pg)) (b, Copy_listener b cd)" using assms(3) by simp
  moreover have "count (mset [(b, Copy_listener b cd)]) (b, Copy_listener b cd) = 1" by simp
  ultimately have "2 \<le> count (mset (listeners ?pg2)) (b, Copy_listener b cd)"
    by (simp only: mset_append count_union)
  with st show ?thesis by blast
qed

theorem reinsert_enhances_again_witness:
  "\<exists>pg2. step (the (step (the (run (boot True demo_doc) [Remove 1])) (Reinsert 0 1))) Deliver = Some pg2
     \<and> 2 \<le> count (mset (listeners pg2)) (2, Copy_listener 2 6)"
proof -
  let ?pg = "the (run (boot True demo_doc) [Remove 1])"
  have r: "run (boot True demo_doc) [Remove 1] = Some ?pg" by code_simp
  have o: "observing ?pg" by code_simp
  have l: "(2, Copy_listener 2 6) \<in> set (listeners ?pg)" by code_simp
  have b: "is_block (dom ?pg) 1" by code_simp
  have q1: "query_in (dom ?pg) COPY_BTN 1 = Some 2" by code_simp
  have q2: "query_in (dom ?pg) CODE_EL 1 = Some 6" by code_simp
  have st: "step ?pg (Reinsert 0 1) = Some (the (step ?pg (Reinsert 0 1)))" by code_simp
  show ?thesis using reinsert_enhances_again [OF run_reachable [OF demo_reachable r] o l b q1 q2 st] .
qed

section \<open>Every pending restore can run\<close>

text \<open>
  C11. Every restore timer the script arms is due within 1600 ms: from any reachable page,
  once the clock has advanced by 1600 ms, all pending timers are due, firing them one after
  the other succeeds, and no timer is left pending. The feedback of every copy is undone
  no later than 1600 ms after the last copy succeeded.
\<close>

theorem timers_all_fire_after_delay:
  assumes "reachable c pg"
  shows "\<exists>pg'. run pg (Tick DELAY # replicate (length (timers pg)) (Fire 0)) = Some pg' \<and> timers pg' = []"
proof -
  let ?pg = "pg\<lparr>now := now pg + DELAY\<rparr>"
  have "list_all (\<lambda>t. due t \<le> now ?pg) (timers ?pg)"
    using reachable_due_bound [OF assms] by (simp add: due_bound_def)
  then show ?thesis using fire_all [of ?pg] by simp
qed

theorem timers_all_fire_after_delay_witness:
  "\<exists>pg'. run (the (run (boot True demo_doc) [Click 4, Resolve 0, Click 3, Resolve 0]))
           [Tick DELAY, Fire 0, Fire 0] = Some pg' \<and> timers pg' = []"
proof -
  let ?pg = "the (run (boot True demo_doc) [Click 4, Resolve 0, Click 3, Resolve 0])"
  have r: "run (boot True demo_doc) [Click 4, Resolve 0, Click 3, Resolve 0] = Some ?pg" by code_simp
  have n: "length (timers ?pg) = 2" by code_simp
  show ?thesis
    using timers_all_fire_after_delay [OF run_reachable [OF demo_reachable r]] n
    by (simp add: numeral_2_eq_2)
qed

end
